theory Spec2Isabelle
  imports Main
begin

section \<open>Data model of \<open>App.tsx\<close>\<close>

text \<open>
  A \<open>Timestamp\<close> is an instant in milliseconds. The optional fields of the
  interface \<open>Note\<close> are options. The field \<open>id\<close> is named \<open>id_note\<close>, since
  \<open>id\<close> is the identity function of HOL.
\<close>

type_synonym timestamp = nat

record Note =
  id_note :: string
  title :: string
  content :: string
  createdAt :: "timestamp option"
  lastModified :: "timestamp option"
  userId :: "string option"

text \<open>
  The values held by the \<open>useState\<close> hooks of the component \<open>App\<close>. Of the
  \<open>User\<close> object only \<open>uid\<close> is read, so \<open>currentUser\<close> holds the uid.
\<close>

record App =
  currentUser :: "string option"
  authLoading :: bool
  "notes" :: "Note list"
  selectedNote :: "Note option"
  currentTitle :: string
  currentContent :: string
  isLoading :: bool
  isSaving :: bool
  isDirty :: bool
  showDeleteModal :: bool
  noteToDelete :: "string option"

text \<open>The calls made to the document store, in the order they are issued.\<close>

datatype store_call =
    GetDocs string
  | AddDoc string string timestamp timestamp string
  | UpdateDoc string string string timestamp
  | DeleteDoc string

text \<open>
  The component together with what surrounds it. \<open>app\<close> is the state with
  every queued update applied; \<open>rendered\<close> is the state the last render saw,
  which is what the closures of that render (handlers, effects, the callback
  of the timer) read. \<open>timer\<close> is the pending timeout of the auto-save effect:
  the milliseconds left and the render whose \<open>saveCurrentNote\<close> it will call.
  \<open>store_log\<close> and \<open>console\<close> record the store calls and the
  \<open>console.error\<close> messages.
\<close>

record world =
  app :: App
  rendered :: App
  timer :: "(nat \<times> App) option"
  store_log :: "store_call list"
  console :: "string list"

text \<open>The initial values of the \<open>useState\<close> hooks (lines 31 to 41).\<close>

definition initial :: App where
  "initial = \<lparr>currentUser = None, authLoading = True, notes = [],
     selectedNote = None, currentTitle = [], currentContent = [],
     isLoading = True, isSaving = False, isDirty = False,
     showDeleteModal = False, noteToDelete = None\<rparr>"

section \<open>Effects and rendering\<close>

text \<open>
  An effect runs after a render when one of its dependencies differs from the
  render before. It reads the state its render saw (\<open>c\<close>) and queues updates,
  which are applied to the pending state (\<open>a\<close>). Dependencies are compared by
  value. The dependency \<open>fetchNotes\<close> is stable, and \<open>saveCurrentNote\<close> is
  rebuilt exactly when one of \<open>selectedNote\<close>, \<open>currentTitle\<close>,
  \<open>currentContent\<close>, \<open>isDirty\<close> changes (line 146).
\<close>

text \<open>\<open>notes.find(note => note.id === i)\<close>.\<close>

definition find_note :: "string \<Rightarrow> Note list \<Rightarrow> Note option" where
  "find_note i ns = find (\<lambda>n. id_note n = i) ns"

text \<open>
  Lines 87 to 99. With a user, \<open>fetchNotes\<close> runs up to its \<open>await\<close>: it sets
  \<open>isLoading\<close> and sends the query, whose answer arrives later
  (\<open>fetchNotes_done\<close> below).
\<close>

definition user_effect_runs :: "App \<Rightarrow> App \<Rightarrow> bool" where
  "user_effect_runs p c = (currentUser c \<noteq> currentUser p)"

definition user_effect :: "App \<Rightarrow> App \<Rightarrow> App \<Rightarrow> App" where
  "user_effect p c a =
     (if user_effect_runs p c then
        (case currentUser c of
           Some u \<Rightarrow> a\<lparr>isLoading := True\<rparr>
         | None \<Rightarrow> a\<lparr>isLoading := False, currentTitle := [],
                     currentContent := [], isDirty := False\<rparr>)
      else a)"

text \<open>Lines 102 to 110: the selected note is gone from the list.\<close>

definition selection_effect_runs :: "App \<Rightarrow> App \<Rightarrow> bool" where
  "selection_effect_runs p c =
     (notes c \<noteq> notes p \<or> selectedNote c \<noteq> selectedNote p)"

definition selection_effect :: "App \<Rightarrow> App \<Rightarrow> App \<Rightarrow> App" where
  "selection_effect p c a =
     (if selection_effect_runs p c then
        (case selectedNote c of
           Some sel \<Rightarrow>
             (if find_note (id_note sel) (notes c) = None
              then a\<lparr>selectedNote := None, currentTitle := [],
                      currentContent := [], isDirty := False\<rparr>
              else a)
         | None \<Rightarrow> a)
      else a)"

text \<open>Lines 113 to 126: dirty tracking.\<close>

definition dirty_effect_runs :: "App \<Rightarrow> App \<Rightarrow> bool" where
  "dirty_effect_runs p c =
     (currentTitle c \<noteq> currentTitle p \<or> currentContent c \<noteq> currentContent p
      \<or> selectedNote c \<noteq> selectedNote p \<or> notes c \<noteq> notes p)"

definition dirty_effect :: "App \<Rightarrow> App \<Rightarrow> App \<Rightarrow> App" where
  "dirty_effect p c a =
     (if dirty_effect_runs p c then
        (case selectedNote c of
           Some sel \<Rightarrow>
             (case find_note (id_note sel) (notes c) of
                Some orig \<Rightarrow>
                  (if currentTitle c \<noteq> title orig \<or> currentContent c \<noteq> content orig
                   then a\<lparr>isDirty := True\<rparr>
                   else a\<lparr>isDirty := False\<rparr>)
              | None \<Rightarrow> a)
         | None \<Rightarrow> a\<lparr>isDirty := False\<rparr>)
      else a)"

text \<open>
  Lines 149 to 156: the auto-save effect. When it runs again, the cleanup of
  its last run clears the timeout that run had set; then a timeout of 1500 ms
  is set if the render is dirty, has a selection and is not saving.
\<close>

definition autosave_effect_runs :: "App \<Rightarrow> App \<Rightarrow> bool" where
  "autosave_effect_runs p c =
     (isDirty c \<noteq> isDirty p \<or> selectedNote c \<noteq> selectedNote p
      \<or> currentTitle c \<noteq> currentTitle p \<or> currentContent c \<noteq> currentContent p
      \<or> isSaving c \<noteq> isSaving p)"

definition autosave_effect :: "App \<Rightarrow> App \<Rightarrow> (nat \<times> App) option \<Rightarrow> (nat \<times> App) option" where
  "autosave_effect p c tm =
     (if autosave_effect_runs p c then
        (if isDirty c \<and> selectedNote c \<noteq> None \<and> \<not> isSaving c
         then Some (1500, c) else None)
      else tm)"

text \<open>
  One render and its effects, in the order of the source. Nothing happens
  when no update is queued.
\<close>

definition run_effects :: "App \<Rightarrow> App \<Rightarrow> App" where
  "run_effects p c = dirty_effect p c (selection_effect p c (user_effect p c c))"

definition render :: "world \<Rightarrow> world" where
  "render w =
     (let p = rendered w; c = app w in
      if c = p then w
      else w\<lparr>app := run_effects p c,
             rendered := c,
             timer := autosave_effect p c (timer w),
             store_log :=
               (case currentUser c of
                  Some u \<Rightarrow> if user_effect_runs p c then store_log w @ [GetDocs u]
                            else store_log w
                | None \<Rightarrow> store_log w)\<rparr>)"

text \<open>
  React renders again as long as an effect has queued an update. Three
  rounds always reach a state with nothing queued (\<open>flush_settled\<close> below).
\<close>

fun rerender :: "nat \<Rightarrow> world \<Rightarrow> world" where
  "rerender 0 w = w"
| "rerender (Suc k) w = (if app w = rendered w then w else rerender k (render w))"

definition flush :: "world \<Rightarrow> world" where
  "flush w = rerender 3 w"

definition settled :: "world \<Rightarrow> bool" where
  "settled w = (app w = rendered w)"


text \<open>
  On mount every effect runs once on the initial state: no user is logged in,
  so the effect of lines 87 to 99 takes its \<open>else\<close> branch; no note is
  selected, so dirty tracking sets \<open>isDirty\<close> to false and the other two
  effects do nothing.
\<close>

definition mount :: world where
  "mount =
     flush \<lparr>app = initial\<lparr>isLoading := False, currentTitle := [],
                             currentContent := [], isDirty := False\<rparr>,
            rendered = initial, timer = None, store_log = [], console = []\<rparr>"

section \<open>Handlers\<close>

text \<open>
  A call of a state setter queues an update; \<open>setNotes(prev => ...)\<close> reads the
  pending state. A handler reads the state of the render that built it (its
  first argument \<open>c\<close>). At an \<open>await\<close> on the store the component renders
  (\<open>flush\<close>); the store answers before the next event of the user, and its
  answer is an argument of the handler: \<open>ok\<close> says whether the call succeeded,
  and \<open>now\<close> is what \<open>Timestamp.now()\<close> returns.
\<close>

definition queue :: "(App \<Rightarrow> App) \<Rightarrow> world \<Rightarrow> world" where
  "queue f w = w\<lparr>app := f (app w)\<rparr>"

definition call_store :: "store_call \<Rightarrow> world \<Rightarrow> world" where
  "call_store k w = w\<lparr>store_log := store_log w @ [k]\<rparr>"

definition console_error :: "string \<Rightarrow> world \<Rightarrow> world" where
  "console_error m w = w\<lparr>console := console w @ [m]\<rparr>"

text \<open>
  Lines 128 to 146. \<open>saveCurrentNote_begin\<close> is the part before
  \<open>await updateDoc\<close>, \<open>saveCurrentNote_end\<close> the part after it.
\<close>

definition updated_note :: "App \<Rightarrow> timestamp \<Rightarrow> Note \<Rightarrow> Note" where
  "updated_note c now n =
     n\<lparr>title := currentTitle c, content := currentContent c,
       lastModified := Some now\<rparr>"

definition saveCurrentNote_begin :: "App \<Rightarrow> timestamp \<Rightarrow> world \<Rightarrow> world" where
  "saveCurrentNote_begin c now w =
     (case selectedNote c of
        None \<Rightarrow> w
      | Some sel \<Rightarrow>
          if \<not> isDirty c then w
          else call_store (UpdateDoc (id_note sel) (currentTitle c) (currentContent c) now)
                 (queue (\<lambda>a. a\<lparr>isSaving := True\<rparr>) w))"

definition saveCurrentNote_end :: "App \<Rightarrow> bool \<Rightarrow> timestamp \<Rightarrow> world \<Rightarrow> world" where
  "saveCurrentNote_end c ok now w =
     (case selectedNote c of
        None \<Rightarrow> w
      | Some sel \<Rightarrow>
          if \<not> isDirty c then w
          else
            queue (\<lambda>a. a\<lparr>isSaving := False\<rparr>)
              (if ok then
                 queue (\<lambda>a. a\<lparr>isDirty := False\<rparr>)
                   (queue (\<lambda>a. a\<lparr>notes :=
                       map (\<lambda>n. if id_note n = id_note sel then updated_note c now n else n)
                         (notes a)\<rparr>) w)
               else console_error ''Error saving note:'' w))"

definition saveCurrentNote :: "App \<Rightarrow> bool \<Rightarrow> timestamp \<Rightarrow> world \<Rightarrow> world" where
  "saveCurrentNote c ok now w =
     saveCurrentNote_end c ok now (flush (saveCurrentNote_begin c now w))"

text \<open>
  Lines 158 to 166. The save is awaited only when another note is selected
  and the render is dirty; \<open>load_note\<close> is lines 162 to 165.
\<close>

definition select_saves :: "App \<Rightarrow> Note \<Rightarrow> bool" where
  "select_saves c noteToSelect =
     (case selectedNote c of
        None \<Rightarrow> False
      | Some sel \<Rightarrow> id_note sel \<noteq> id_note noteToSelect \<and> isDirty c)"

definition load_note :: "Note \<Rightarrow> world \<Rightarrow> world" where
  "load_note noteToSelect w =
     queue (\<lambda>a. a\<lparr>selectedNote := Some noteToSelect,
                   currentTitle := title noteToSelect,
                   currentContent := content noteToSelect,
                   isDirty := False\<rparr>) w"

definition handleSelectNote_begin :: "App \<Rightarrow> Note \<Rightarrow> timestamp \<Rightarrow> world \<Rightarrow> world" where
  "handleSelectNote_begin c noteToSelect now w =
     (if select_saves c noteToSelect then saveCurrentNote_begin c now w
      else load_note noteToSelect w)"

definition handleSelectNote_end :: "App \<Rightarrow> Note \<Rightarrow> bool \<Rightarrow> timestamp \<Rightarrow> world \<Rightarrow> world" where
  "handleSelectNote_end c noteToSelect ok now w =
     (if select_saves c noteToSelect
      then load_note noteToSelect (saveCurrentNote_end c ok now w)
      else w)"

definition handleSelectNote :: "App \<Rightarrow> Note \<Rightarrow> bool \<Rightarrow> timestamp \<Rightarrow> world \<Rightarrow> world" where
  "handleSelectNote c noteToSelect ok now w =
     handleSelectNote_end c noteToSelect ok now
       (flush (handleSelectNote_begin c noteToSelect now w))"


text \<open>
  Lines 168 to 195. \<open>t1\<close> and \<open>ok1\<close> belong to the awaited save; \<open>tc\<close> and
  \<open>tm\<close> are the two readings of \<open>Timestamp.now()\<close> in lines 181 and 182;
  \<open>added\<close> is the identifier returned by \<open>addDoc\<close>, or \<open>None\<close> when it
  throws. \<open>handleSelectNote\<close> in line 190 is the one of the render that built
  this handler and is not awaited: when it saves (\<open>t2\<close>, \<open>ok2\<close>), line 194
  runs before its \<open>updateDoc\<close> returns.
\<close>

definition newNoteData :: "timestamp \<Rightarrow> timestamp \<Rightarrow> string \<Rightarrow> string \<Rightarrow> Note" where
  "newNoteData tc tm uid docId =
     \<lparr>id_note = docId, title = ''Untitled Note'', content = [],
      createdAt = Some tc, lastModified = Some tm, userId = Some uid\<rparr>"

definition handleAddNewNote ::
  "App \<Rightarrow> bool \<Rightarrow> timestamp \<Rightarrow> timestamp \<Rightarrow> timestamp \<Rightarrow> string option
     \<Rightarrow> bool \<Rightarrow> timestamp \<Rightarrow> world \<Rightarrow> world" where
  "handleAddNewNote c ok1 t1 tc tm added ok2 t2 w =
     (let w1 = (if selectedNote c \<noteq> None \<and> isDirty c
                then saveCurrentNote c ok1 t1 w else w)
      in case currentUser c of
           None \<Rightarrow> console_error ''No user logged in. Cannot add note.'' w1
         | Some uid \<Rightarrow>
             (let w2 = flush (call_store (AddDoc ''Untitled Note'' [] tc tm uid)
                                (queue (\<lambda>a. a\<lparr>isSaving := True\<rparr>) w1))
              in case added of
                   None \<Rightarrow>
                     queue (\<lambda>a. a\<lparr>isSaving := False\<rparr>)
                       (console_error ''Error adding new note: '' w2)
                 | Some docId \<Rightarrow>
                     (let newNote = newNoteData tc tm uid docId;
                          w3 = queue (\<lambda>a. a\<lparr>notes := newNote # notes a\<rparr>) w2;
                          w4 = handleSelectNote_begin c newNote t2 w3;
                          w5 = flush (queue (\<lambda>a. a\<lparr>isSaving := False\<rparr>) w4)
                      in handleSelectNote_end c newNote ok2 t2 w5)))"

text \<open>Lines 197 to 200, 225 to 229 and 202 to 223.\<close>

definition handleCloseDeleteModal :: "world \<Rightarrow> world" where
  "handleCloseDeleteModal w =
     queue (\<lambda>a. a\<lparr>showDeleteModal := False, noteToDelete := None\<rparr>) w"

definition handleDeleteNote :: "string \<Rightarrow> world \<Rightarrow> world" where
  "handleDeleteNote noteId w =
     queue (\<lambda>a. a\<lparr>noteToDelete := Some noteId, showDeleteModal := True\<rparr>) w"

definition handleConfirmDelete :: "App \<Rightarrow> bool \<Rightarrow> world \<Rightarrow> world" where
  "handleConfirmDelete c ok w =
     (case noteToDelete c of
        None \<Rightarrow> w
      | Some d \<Rightarrow>
          (let w1 = flush (call_store (DeleteDoc d)
                             (queue (\<lambda>a. a\<lparr>isSaving := True\<rparr>) w));
               w2 = (if ok then
                       (let w' = queue (\<lambda>a. a\<lparr>notes :=
                                    filter (\<lambda>n. id_note n \<noteq> d) (notes a)\<rparr>) w1
                        in case selectedNote c of
                             None \<Rightarrow> w'
                           | Some sel \<Rightarrow>
                               if id_note sel = d
                               then queue (\<lambda>a. a\<lparr>selectedNote := None,
                                       currentTitle := [], currentContent := [],
                                       isDirty := False\<rparr>) w'
                               else w')
                     else console_error ''Error deleting note:'' w1)
           in handleCloseDeleteModal (queue (\<lambda>a. a\<lparr>isSaving := False\<rparr>) w2)))"

text \<open>
  Lines 47 to 55, the callback of \<open>onAuthStateChanged\<close>, and lines 240 to 247:
  \<open>signOut\<close> either ends the session, which calls the callback with no user,
  or throws.
\<close>

definition authStateChanged :: "string option \<Rightarrow> world \<Rightarrow> world" where
  "authStateChanged user w =
     (let w1 = queue (\<lambda>a. a\<lparr>currentUser := user, authLoading := False\<rparr>) w
      in case user of
           None \<Rightarrow> queue (\<lambda>a. a\<lparr>notes := [], selectedNote := None\<rparr>) w1
         | Some u \<Rightarrow> w1)"

definition handleLogout :: "bool \<Rightarrow> world \<Rightarrow> world" where
  "handleLogout ok w =
     (if ok then authStateChanged None w
      else console_error ''Error signing out: '' w)"

text \<open>
  Lines 72 to 84: the rest of \<open>fetchNotes\<close>, once \<open>getDocs\<close> has answered with
  the documents (\<open>Some\<close>) or thrown (\<open>None\<close>).
\<close>

definition fetchNotes_done :: "Note list option \<Rightarrow> world \<Rightarrow> world" where
  "fetchNotes_done fetched w =
     queue (\<lambda>a. a\<lparr>isLoading := False\<rparr>)
       (case fetched of
          Some fetchedNotesData \<Rightarrow> queue (\<lambda>a. a\<lparr>notes := fetchedNotesData\<rparr>) w
        | None \<Rightarrow> console_error ''Error fetching notes: '' w)"

text \<open>Lines 309 and 333 to 336: the title input and the editor.\<close>

definition setCurrentTitle :: "string \<Rightarrow> world \<Rightarrow> world" where
  "setCurrentTitle v w = queue (\<lambda>a. a\<lparr>currentTitle := v\<rparr>) w"

definition setCurrentContent :: "string \<Rightarrow> world \<Rightarrow> world" where
  "setCurrentContent v w = queue (\<lambda>a. a\<lparr>currentContent := v\<rparr>) w"


section \<open>Events\<close>

text \<open>
  Time is counted in milliseconds and a render takes none. \<open>elapse d answer\<close>
  lets \<open>d\<close> milliseconds pass with no other event. Each time the timeout of
  the auto-save effect expires within the period, its callback
  \<open>saveCurrentNote\<close> runs and the component renders; \<open>answer i\<close> is the
  answer of the store to the save sent at the \<open>i\<close>-th expiry of the period,
  together with the reading of \<open>Timestamp.now()\<close> of that save. The first
  argument of \<open>elapse_loop\<close> bounds the number of expiries. A timeout set by
  the effect takes at least a millisecond to expire, so \<open>Suc d\<close> is enough
  (\<open>elapse_loop_fuel\<close> below).
\<close>

fun elapse_loop :: "nat \<Rightarrow> nat \<Rightarrow> (nat \<Rightarrow> bool \<times> timestamp) \<Rightarrow> nat \<Rightarrow> world \<Rightarrow> world" where
  "elapse_loop 0 d answer i w = w"
| "elapse_loop (Suc k) d answer i w =
     (case timer w of
        None \<Rightarrow> w
      | Some (r, c) \<Rightarrow>
          if d < r then w\<lparr>timer := Some (r - d, c)\<rparr>
          else elapse_loop k (d - r) answer (Suc i)
                 (flush (saveCurrentNote c (fst (answer i)) (snd (answer i))
                           (w\<lparr>timer := None\<rparr>))))"

definition elapse :: "nat \<Rightarrow> (nat \<Rightarrow> bool \<times> timestamp) \<Rightarrow> world \<Rightarrow> world" where
  "elapse d answer w = elapse_loop (Suc d) d answer 0 w"

datatype event =
    AuthChanged "string option"
  | FetchDone "Note list option"
  | EditTitle string
  | EditContent string
  | Select Note bool timestamp
  | AddNew bool timestamp timestamp timestamp "string option" bool timestamp
  | RequestDelete string
  | ConfirmDelete bool
  | CancelDelete
  | Logout bool
  | Elapse nat "nat \<Rightarrow> bool \<times> timestamp"

text \<open>
  What an event does to a world with nothing queued: the handler runs with
  the closures of the last render, then the component renders.
\<close>

fun step :: "event \<Rightarrow> world \<Rightarrow> world" where
  "step (AuthChanged user) w = flush (authStateChanged user w)"
| "step (FetchDone fetched) w = flush (fetchNotes_done fetched w)"
| "step (EditTitle v) w = flush (setCurrentTitle v w)"
| "step (EditContent v) w = flush (setCurrentContent v w)"
| "step (Select n ok now) w = flush (handleSelectNote (rendered w) n ok now w)"
| "step (AddNew ok1 t1 tc tm added ok2 t2) w =
     flush (handleAddNewNote (rendered w) ok1 t1 tc tm added ok2 t2 w)"
| "step (RequestDelete noteId) w = flush (handleDeleteNote noteId w)"
| "step (ConfirmDelete ok) w = flush (handleConfirmDelete (rendered w) ok w)"
| "step CancelDelete w = flush (handleCloseDeleteModal w)"
| "step (Logout ok) w = flush (handleLogout ok w)"
| "step (Elapse d answer) w = flush (elapse d answer w)"

text \<open>
  What the page offers (lines 259 to 261 and 263 to 377): without a user only
  the login page is shown; the list items select the notes of the list and
  their buttons ask to delete them; the title input and the editor exist only
  while a note is selected; the buttons of the modal exist only while it is
  shown. The identity service and the store can answer at any time. The
  identifiers are assigned by the store and unique: the documents of one
  answer have distinct identifiers, and the identifier of a new document is
  not in the list.
\<close>

fun enabled :: "event \<Rightarrow> world \<Rightarrow> bool" where
  "enabled (AuthChanged user) w = True"
| "enabled (FetchDone fetched) w =
     (case fetched of None \<Rightarrow> True | Some ns \<Rightarrow> distinct (map id_note ns))"
| "enabled (EditTitle v) w =
     (currentUser (app w) \<noteq> None \<and> selectedNote (app w) \<noteq> None)"
| "enabled (EditContent v) w =
     (currentUser (app w) \<noteq> None \<and> selectedNote (app w) \<noteq> None)"
| "enabled (Select n ok now) w =
     (currentUser (app w) \<noteq> None \<and> n \<in> set (notes (app w)))"
| "enabled (AddNew ok1 t1 tc tm added ok2 t2) w =
     (currentUser (app w) \<noteq> None \<and>
      (case added of None \<Rightarrow> True
       | Some docId \<Rightarrow> docId \<notin> id_note ` set (notes (app w))))"
| "enabled (RequestDelete noteId) w =
     (currentUser (app w) \<noteq> None \<and> noteId \<in> id_note ` set (notes (app w)))"
| "enabled (ConfirmDelete ok) w =
     (currentUser (app w) \<noteq> None \<and> showDeleteModal (app w))"
| "enabled CancelDelete w =
     (currentUser (app w) \<noteq> None \<and> showDeleteModal (app w))"
| "enabled (Logout ok) w = (currentUser (app w) \<noteq> None)"
| "enabled (Elapse d answer) w = True"

inductive reachable :: "world \<Rightarrow> bool" where
  reachable_mount: "reachable mount"
| reachable_step: "reachable w \<Longrightarrow> enabled e w \<Longrightarrow> reachable (step e w)"


section \<open>Properties of a state\<close>

text \<open>
  \<open>dirty_ok\<close>: with a selection whose entry is in the list, \<open>isDirty\<close> says
  whether the draft differs from that entry; without a selection \<open>isDirty\<close>
  is false. \<open>selection_ok\<close>: the selected note has an entry in the list.
  \<open>user_ok\<close>: nothing is selected without a user. \<open>ids_ok\<close>: the identifiers
  of the list are distinct.
\<close>

definition dirty_ok :: "App \<Rightarrow> bool" where
  "dirty_ok a =
     (case selectedNote a of
        None \<Rightarrow> \<not> isDirty a
      | Some sel \<Rightarrow>
          (case find_note (id_note sel) (notes a) of
             None \<Rightarrow> True
           | Some orig \<Rightarrow>
               isDirty a = (currentTitle a \<noteq> title orig \<or> currentContent a \<noteq> content orig)))"

definition selection_ok :: "App \<Rightarrow> bool" where
  "selection_ok a =
     (case selectedNote a of
        None \<Rightarrow> True
      | Some sel \<Rightarrow> find_note (id_note sel) (notes a) \<noteq> None)"

definition user_ok :: "App \<Rightarrow> bool" where
  "user_ok a = (currentUser a = None \<longrightarrow> selectedNote a = None)"

definition ids_ok :: "App \<Rightarrow> bool" where
  "ids_ok a = distinct (map id_note (notes a))"

text \<open>The draft is empty: no selection, no text, not dirty.\<close>

definition empty_draft :: "App \<Rightarrow> bool" where
  "empty_draft a =
     (selectedNote a = None \<and> currentTitle a = [] \<and> currentContent a = []
      \<and> \<not> isDirty a)"

text \<open>
  What \<open>saveCurrentNote\<close> reads, and the condition under which the auto-save
  effect sets its timeout.
\<close>

definition same_draft :: "App \<Rightarrow> App \<Rightarrow> bool" where
  "same_draft c a =
     (selectedNote c = selectedNote a \<and> currentTitle c = currentTitle a
      \<and> currentContent c = currentContent a \<and> isDirty c = isDirty a)"

definition autosave_due :: "App \<Rightarrow> bool" where
  "autosave_due a = (isDirty a \<and> selectedNote a \<noteq> None \<and> \<not> isSaving a)"

text \<open>
  \<open>timer_ok\<close>: a timeout is pending exactly when the last render was dirty,
  had a selection and was not saving, and its callback reads the draft of
  that render.
\<close>

definition timer_ok :: "world \<Rightarrow> bool" where
  "timer_ok w =
     (case timer w of
        None \<Rightarrow> \<not> autosave_due (rendered w)
      | Some (r, c) \<Rightarrow>
          autosave_due (rendered w) \<and> same_draft c (rendered w) \<and> 0 < r \<and> r \<le> 1500)"

definition inv :: "world \<Rightarrow> bool" where
  "inv w =
     (settled w \<and> user_ok (app w) \<and> selection_ok (app w) \<and> dirty_ok (app w)
      \<and> ids_ok (app w) \<and> timer_ok w)"

text \<open>
  \<open>pending_ok\<close> is what the renders of \<open>flush\<close> keep: each of \<open>dirty_ok\<close>
  and \<open>selection_ok\<close> holds of the pending state unless the effect that
  restores it will run.
\<close>

definition pending_ok :: "world \<Rightarrow> bool" where
  "pending_ok w =
     (user_ok (app w) \<and> ids_ok (app w) \<and> timer_ok w
      \<and> (\<not> dirty_effect_runs (rendered w) (app w) \<longrightarrow> dirty_ok (app w))
      \<and> (\<not> selection_effect_runs (rendered w) (app w) \<longrightarrow> selection_ok (app w)))"


section \<open>Example worlds\<close>

text \<open>
  A user logs in and the store answers with two notes; the user selects the
  second one and changes its title.
\<close>

definition note_a :: Note where
  "note_a = \<lparr>id_note = ''n1'', title = ''A'', content = ''x'',
     createdAt = Some 1, lastModified = Some 5, userId = Some ''u1''\<rparr>"

definition note_b :: Note where
  "note_b = \<lparr>id_note = ''n2'', title = ''B'', content = ''y'',
     createdAt = Some 2, lastModified = Some 3, userId = Some ''u1''\<rparr>"

definition ex_listed :: world where
  "ex_listed =
     step (FetchDone (Some [note_a, note_b])) (step (AuthChanged (Some ''u1'')) mount)"

definition ex_clean :: world where
  "ex_clean = step (Select note_b True 0) ex_listed"

definition ex_dirty :: world where
  "ex_dirty = step (EditTitle ''B2'') ex_clean"

text \<open>The user then asks to delete the note being edited.\<close>

definition ex_asked :: world where
  "ex_asked = step (RequestDelete ''n2'') ex_dirty"



text \<open>
  Or the timeout set by the edit expires: \<open>ex_saving\<close> is the render shown
  while the update of the save is awaited. The list items stay clickable
  (line 287), and \<open>ex_clicked\<close> is the world after a click on the selected
  note with the update still pending. In \<open>ex_answered\<close> the update has
  succeeded and the rest of \<open>saveCurrentNote\<close> has run.
\<close>

definition ex_saving :: world where
  "ex_saving = flush (saveCurrentNote_begin (app ex_dirty) 9 (ex_dirty\<lparr>timer := None\<rparr>))"

definition ex_clicked :: world where
  "ex_clicked = step (Select note_b True 0) ex_saving"

definition ex_answered :: world where
  "ex_answered = flush (saveCurrentNote_end (app ex_dirty) True 9 ex_clicked)"

section \<open>Auxiliary notions\<close>

text \<open>
  \<open>keeps_draft\<close>: an update that leaves the user, the list, the selection
  and the draft alone. \<open>save_map\<close>: the list after a successful save.
  \<open>add_awaits\<close>: the world of \<open>handleAddNewNote\<close> when \<open>addDoc\<close> is awaited.
\<close>

definition keeps_draft :: "(App \<Rightarrow> App) \<Rightarrow> bool" where
  "keeps_draft f = (\<forall>a. currentUser (f a) = currentUser a \<and> notes (f a) = notes a
      \<and> selectedNote (f a) = selectedNote a \<and> currentTitle (f a) = currentTitle a
      \<and> currentContent (f a) = currentContent a \<and> isDirty (f a) = isDirty a)"

definition save_map :: "App \<Rightarrow> timestamp \<Rightarrow> Note \<Rightarrow> Note list \<Rightarrow> Note list" where
  "save_map c now sel ns =
     map (\<lambda>n. if id_note n = id_note sel then updated_note c now n else n) ns"

definition add_awaits :: "App \<Rightarrow> bool \<Rightarrow> timestamp \<Rightarrow> store_call \<Rightarrow> world \<Rightarrow> world" where
  "add_awaits c ok1 t1 k w =
     flush (call_store k (queue (\<lambda>a. a\<lparr>isSaving := True\<rparr>)
       (if selectedNote c \<noteq> None \<and> isDirty c then saveCurrentNote c ok1 t1 w else w)))"

text \<open>
  \<open>saved_notes\<close>: the list after a call of \<open>saveCurrentNote\<close> from the render
  \<open>c\<close>, whose update succeeds or not. \<open>save_calls\<close>: the calls that
  this \<open>saveCurrentNote\<close> sends to the store.
\<close>

definition saved_notes :: "App \<Rightarrow> bool \<Rightarrow> timestamp \<Rightarrow> Note list \<Rightarrow> Note list" where
  "saved_notes c ok now ns =
     (case selectedNote c of
        None \<Rightarrow> ns
      | Some sel \<Rightarrow> if isDirty c \<and> ok then save_map c now sel ns else ns)"

definition save_calls :: "App \<Rightarrow> timestamp \<Rightarrow> store_call list" where
  "save_calls c now =
     (case selectedNote c of
        None \<Rightarrow> []
      | Some sel \<Rightarrow>
          if isDirty c
          then [UpdateDoc (id_note sel) (currentTitle c) (currentContent c) now]
          else [])"


section \<open>Rendering reaches a settled state\<close>

text \<open>
  The effects change only \<open>isLoading\<close>, the selection, the draft and
  \<open>isDirty\<close>. After the first round the user effect and the selection
  effect have nothing left to do, and after the second only \<open>isDirty\<close> has
  changed, which is a dependency of the auto-save effect alone.
\<close>

lemma render_settled_id: "app w = rendered w \<Longrightarrow> render w = w"
  by (simp add: render_def)

lemma rendered_render: "rendered (render w) = app w"
  by (simp add: render_def Let_def)

lemma user_effect_fields [simp]:
  "currentUser (user_effect p c a) = currentUser a"
  "notes (user_effect p c a) = notes a"
  "selectedNote (user_effect p c a) = selectedNote a"
  "isSaving (user_effect p c a) = isSaving a"
  "authLoading (user_effect p c a) = authLoading a"
  "showDeleteModal (user_effect p c a) = showDeleteModal a"
  "noteToDelete (user_effect p c a) = noteToDelete a"
  by (simp_all add: user_effect_def split: option.splits)

lemma selection_effect_fields [simp]:
  "currentUser (selection_effect p c a) = currentUser a"
  "notes (selection_effect p c a) = notes a"
  "isSaving (selection_effect p c a) = isSaving a"
  "isLoading (selection_effect p c a) = isLoading a"
  "authLoading (selection_effect p c a) = authLoading a"
  "showDeleteModal (selection_effect p c a) = showDeleteModal a"
  "noteToDelete (selection_effect p c a) = noteToDelete a"
  by (simp_all add: selection_effect_def split: option.splits)

lemma dirty_effect_fields [simp]:
  "currentUser (dirty_effect p c a) = currentUser a"
  "notes (dirty_effect p c a) = notes a"
  "selectedNote (dirty_effect p c a) = selectedNote a"
  "currentTitle (dirty_effect p c a) = currentTitle a"
  "currentContent (dirty_effect p c a) = currentContent a"
  "isSaving (dirty_effect p c a) = isSaving a"
  "isLoading (dirty_effect p c a) = isLoading a"
  "authLoading (dirty_effect p c a) = authLoading a"
  "showDeleteModal (dirty_effect p c a) = showDeleteModal a"
  "noteToDelete (dirty_effect p c a) = noteToDelete a"
  by (simp_all add: dirty_effect_def split: option.splits)

lemma run_effects_fields [simp]:
  "currentUser (run_effects p c) = currentUser c"
  "notes (run_effects p c) = notes c"
  "isSaving (run_effects p c) = isSaving c"
  "authLoading (run_effects p c) = authLoading c"
  "showDeleteModal (run_effects p c) = showDeleteModal c"
  "noteToDelete (run_effects p c) = noteToDelete c"
  by (simp_all add: run_effects_def)

lemma run_effects_self [simp]: "run_effects p p = p"
  by (simp add: run_effects_def dirty_effect_def selection_effect_def user_effect_def
      dirty_effect_runs_def selection_effect_runs_def user_effect_runs_def)

lemma app_render_eq: "app (render w) = run_effects (rendered w) (app w)"
  by (simp add: render_def Let_def)

lemma selectedNote_selection_effect:
  "selectedNote (selection_effect p c a) = selectedNote a \<or>
   selectedNote (selection_effect p c a) = None"
  by (simp add: selection_effect_def split: option.splits)

lemma selectedNote_run_effects:
  "selectedNote (run_effects p c) = selectedNote c \<or> selectedNote (run_effects p c) = None"
  using selectedNote_selection_effect [of p c "user_effect p c c"]
  by (simp add: run_effects_def)

lemma user_effect_same: "currentUser c = currentUser p \<Longrightarrow> user_effect p c a = a"
  by (simp add: user_effect_def user_effect_runs_def)

lemma selection_effect_none: "selectedNote c = None \<Longrightarrow> selection_effect p c a = a"
  by (simp add: selection_effect_def)

lemma selection_effect_same:
  "notes c = notes p \<Longrightarrow> selectedNote c = selectedNote p \<Longrightarrow> selection_effect p c a = a"
  by (simp add: selection_effect_def selection_effect_runs_def)

lemma dirty_effect_same:
  "notes c = notes p \<Longrightarrow> selectedNote c = selectedNote p \<Longrightarrow>
   currentTitle c = currentTitle p \<Longrightarrow> currentContent c = currentContent p \<Longrightarrow>
   dirty_effect p c a = a"
  by (simp add: dirty_effect_def dirty_effect_runs_def)

lemma dirty_effect_isDirty: "dirty_effect p c a = a\<lparr>isDirty := isDirty (dirty_effect p c a)\<rparr>"
  by (simp add: dirty_effect_def split: option.splits)

lemma second_round:
  "run_effects c (run_effects p c) = dirty_effect c (run_effects p c) (run_effects p c)"
proof -
  let ?a = "run_effects p c"
  have u: "user_effect c ?a ?a = ?a" by (simp add: user_effect_same)
  have "selection_effect c ?a ?a = ?a"
    using selectedNote_run_effects [of p c]
    by (auto simp: selection_effect_none selection_effect_same)
  with u show ?thesis by (simp add: run_effects_def [of c ?a])
qed

lemma run_effects_isDirty_only: "run_effects a (a\<lparr>isDirty := b\<rparr>) = a\<lparr>isDirty := b\<rparr>"
  by (simp add: run_effects_def user_effect_same selection_effect_same dirty_effect_same)

lemma third_round:
  "run_effects (run_effects p c) (run_effects c (run_effects p c)) = run_effects c (run_effects p c)"
proof -
  let ?a = "run_effects p c"
  obtain b where "run_effects c ?a = ?a\<lparr>isDirty := b\<rparr>"
    using dirty_effect_isDirty [of c ?a ?a] second_round [of c p] by metis
  then show ?thesis by (simp add: run_effects_isDirty_only)
qed

lemma app_flush: "app (flush w) = run_effects (app w) (run_effects (rendered w) (app w))"
  by (simp add: flush_def numeral_3_eq_3 app_render_eq rendered_render third_round)

lemma flush_settled: "settled (flush w)"
  by (simp add: flush_def settled_def numeral_3_eq_3 app_render_eq rendered_render third_round)

section \<open>What rendering keeps\<close>

lemma autosave_effect_same [simp]: "autosave_effect p p tm = tm"
  by (simp add: autosave_effect_def autosave_effect_runs_def)

lemma timer_render: "timer (render w) = autosave_effect (rendered w) (app w) (timer w)"
  by (simp add: render_def Let_def)

lemma console_render [simp]: "console (render w) = console w"
  by (simp add: render_def Let_def)

lemma render_timer_ok: "timer_ok w \<Longrightarrow> timer_ok (render w)"
  by (auto simp: timer_ok_def rendered_render timer_render autosave_effect_def
      autosave_effect_runs_def autosave_due_def same_draft_def split: option.splits)

lemma render_user_ok: "user_ok (app w) \<Longrightarrow> user_ok (app (render w))"
  using selectedNote_run_effects [of "rendered w" "app w"]
  by (auto simp: user_ok_def app_render_eq)

lemma render_ids_ok: "ids_ok (app w) \<Longrightarrow> ids_ok (app (render w))"
  by (simp add: ids_ok_def app_render_eq)

lemma dirty_effect_establishes:
  assumes "dirty_effect_runs p c"
    and "selectedNote a = selectedNote c" "notes a = notes c"
    and "currentTitle a = currentTitle c" "currentContent a = currentContent c"
  shows "dirty_ok (dirty_effect p c a)"
  using assms by (auto simp: dirty_ok_def dirty_effect_def split: option.splits)

lemma run_effects_no_dirty:
  "\<not> dirty_effect_runs p c \<Longrightarrow> run_effects p c = user_effect p c c"
  by (simp add: run_effects_def dirty_effect_def selection_effect_def
      dirty_effect_runs_def selection_effect_runs_def)

lemma run_effects_no_selection:
  "\<not> selection_effect_runs p c \<Longrightarrow> selectedNote (run_effects p c) = selectedNote c"
  by (simp add: run_effects_def selection_effect_def)

lemma user_effect_dirty_ok:
  assumes "user_ok c" "dirty_ok c"
    and "currentTitle (user_effect p c c) = currentTitle c"
    and "currentContent (user_effect p c c) = currentContent c"
  shows "dirty_ok (user_effect p c c)"
  using assms
  by (auto simp: user_effect_def user_ok_def dirty_ok_def split: option.splits if_splits)

lemma render_dirty_part:
  assumes "pending_ok w"
    and "\<not> dirty_effect_runs (app w) (run_effects (rendered w) (app w))"
  shows "dirty_ok (run_effects (rendered w) (app w))"
proof (cases "dirty_effect_runs (rendered w) (app w)")
  case True
  let ?p = "rendered w" and ?c = "app w"
  let ?a = "selection_effect ?p ?c (user_effect ?p ?c ?c)"
  from assms(2) have eq: "selectedNote ?a = selectedNote ?c"
    "currentTitle ?a = currentTitle ?c" "currentContent ?a = currentContent ?c"
    by (simp_all add: dirty_effect_runs_def run_effects_def)
  have "notes ?a = notes ?c" by simp
  with True eq have "dirty_ok (dirty_effect ?p ?c ?a)"
    by (intro dirty_effect_establishes) simp_all
  then show ?thesis by (simp add: run_effects_def)
next
  case False
  with assms(1) have ok: "user_ok (app w)" "dirty_ok (app w)"
    by (simp_all add: pending_ok_def)
  from False have r: "run_effects (rendered w) (app w) = user_effect (rendered w) (app w) (app w)"
    by (rule run_effects_no_dirty)
  from assms(2) show ?thesis
    unfolding r by (intro user_effect_dirty_ok ok) (simp_all add: dirty_effect_runs_def)
qed

lemma render_selection_part:
  assumes "pending_ok w"
    and "\<not> selection_effect_runs (app w) (run_effects (rendered w) (app w))"
  shows "selection_ok (run_effects (rendered w) (app w))"
proof (cases "selection_effect_runs (rendered w) (app w)")
  case True
  from assms(2) have "selectedNote (run_effects (rendered w) (app w)) = selectedNote (app w)"
    by (simp add: selection_effect_runs_def)
  then have "selectedNote (selection_effect (rendered w) (app w)
       (user_effect (rendered w) (app w) (app w))) = selectedNote (app w)"
    by (simp add: run_effects_def)
  with True have "selection_ok (app w)"
    by (auto simp: selection_effect_def selection_ok_def split: option.splits if_splits)
  with assms(2) show ?thesis
    by (auto simp: selection_ok_def selection_effect_runs_def split: option.splits)
next
  case False
  with assms(1) have "selection_ok (app w)" by (simp add: pending_ok_def)
  with assms(2) show ?thesis
    by (auto simp: selection_ok_def selection_effect_runs_def split: option.splits)
qed

lemma render_pending_ok: "pending_ok w \<Longrightarrow> pending_ok (render w)"
  unfolding pending_ok_def [of "render w"]
  using render_dirty_part [of w] render_selection_part [of w]
    render_user_ok [of w] render_ids_ok [of w] render_timer_ok [of w]
  by (simp add: pending_ok_def [of w] rendered_render app_render_eq)

lemma rerender_pending_ok: "pending_ok w \<Longrightarrow> pending_ok (rerender k w)"
  by (induction k arbitrary: w) (simp_all add: render_pending_ok)

lemma flush_pending_ok: "pending_ok w \<Longrightarrow> pending_ok (flush w)"
  by (simp add: flush_def rerender_pending_ok)

lemma settled_pending_ok: "settled w \<Longrightarrow> pending_ok w = inv w"
  by (auto simp: pending_ok_def inv_def settled_def dirty_effect_runs_def selection_effect_runs_def)

lemma flush_inv: "pending_ok w \<Longrightarrow> inv (flush w)"
  using flush_pending_ok [of w] settled_pending_ok [of "flush w"] flush_settled [of w] by simp

lemma inv_pending_ok: "inv w \<Longrightarrow> pending_ok w"
  using settled_pending_ok [of w] by (simp add: inv_def)

section \<open>Handlers: what they read and write\<close>

lemma queue_fields [simp]:
  "app (queue f w) = f (app w)"
  "rendered (queue f w) = rendered w"
  "timer (queue f w) = timer w"
  "store_log (queue f w) = store_log w"
  "console (queue f w) = console w"
  by (simp_all add: queue_def)

lemma call_store_fields [simp]:
  "app (call_store k w) = app w"
  "rendered (call_store k w) = rendered w"
  "timer (call_store k w) = timer w"
  "store_log (call_store k w) = store_log w @ [k]"
  "console (call_store k w) = console w"
  by (simp_all add: call_store_def)

lemma console_error_fields [simp]:
  "app (console_error m w) = app w"
  "rendered (console_error m w) = rendered w"
  "timer (console_error m w) = timer w"
  "store_log (console_error m w) = store_log w"
  "console (console_error m w) = console w @ [m]"
  by (simp_all add: console_error_def)

lemma flush_fields [simp]:
  "currentUser (app (flush w)) = currentUser (app w)"
  "notes (app (flush w)) = notes (app w)"
  "isSaving (app (flush w)) = isSaving (app w)"
  "authLoading (app (flush w)) = authLoading (app w)"
  "showDeleteModal (app (flush w)) = showDeleteModal (app w)"
  "noteToDelete (app (flush w)) = noteToDelete (app w)"
  by (simp_all add: app_flush)

lemma rendered_flush [simp]: "rendered (flush w) = app (flush w)"
  using flush_settled [of w] by (simp add: settled_def)

lemma console_flush [simp]: "console (flush w) = console w"
  by (simp add: flush_def numeral_3_eq_3)

lemma notes_saveCurrentNote:
  assumes "selectedNote c = Some sel" and "isDirty c"
  shows "notes (app (saveCurrentNote c True now w)) =
     map (\<lambda>n. if id_note n = id_note sel then updated_note c now n else n) (notes (app w))"
  using assms
  by (simp add: saveCurrentNote_def saveCurrentNote_end_def saveCurrentNote_begin_def)

section \<open>A save changes one entry, in place\<close>

text \<open>
  Claim C10. A successful save replaces the title, the content and the
  last-modified timestamp of the entries of the list whose identifier is
  that of the selected note. The list keeps its length, every other entry,
  and the position of every identifier: it is not sorted again.
\<close>

theorem save_replaces_selected_entry_in_place:
  assumes "selectedNote c = Some sel" and "isDirty c"
  shows "let ns = notes (app w);
             ns' = notes (app (flush (saveCurrentNote c True now w)))
         in length ns' = length ns \<and> map id_note ns' = map id_note ns \<and>
            (\<forall>i<length ns. ns' ! i =
               (if id_note (ns ! i) = id_note sel
                then (ns ! i)\<lparr>title := currentTitle c, content := currentContent c,
                       lastModified := Some now\<rparr>
                else ns ! i))"
proof -
  let ?f = "\<lambda>n. if id_note n = id_note sel then updated_note c now n else n"
  have ns': "notes (app (flush (saveCurrentNote c True now w))) = map ?f (notes (app w))"
    using assms by (simp add: notes_saveCurrentNote)
  have ids: "map id_note (map ?f ns) = map id_note ns" for ns
    by (induction ns) (simp_all add: updated_note_def)
  show ?thesis
    unfolding Let_def ns' using ids [of "notes (app w)"]
    by (simp add: updated_note_def)
qed

theorem save_replaces_selected_entry_in_place_witness:
  "selectedNote (app ex_dirty) = Some note_b \<and> isDirty (app ex_dirty) \<and>
   notes (app ex_dirty) = [note_a, note_b] \<and>
   notes (app (flush (saveCurrentNote (app ex_dirty) True 9 ex_dirty))) =
     [note_a, note_b\<lparr>title := ''B2'', lastModified := Some 9\<rparr>]"
proof -
  have h1: "selectedNote (app ex_dirty) = Some note_b" by code_simp
  have h2: "isDirty (app ex_dirty)" by code_simp
  have h3: "notes (app ex_dirty) = [note_a, note_b]" by code_simp
  have h4: "currentTitle (app ex_dirty) = ''B2''" "currentContent (app ex_dirty) = ''y''"
    by code_simp+
  have eq: "xs = [a, b] \<longleftrightarrow> length xs = 2 \<and> xs ! 0 = a \<and> xs ! 1 = b" for xs :: "Note list" and a b
    by (cases xs; cases "tl xs"; auto)
  from save_replaces_selected_entry_in_place [OF h1 h2, of ex_dirty 9]
  show ?thesis
    by (simp add: h1 h2 h3 h4 eq Let_def note_a_def note_b_def)
qed

section \<open>The invariant\<close>

text \<open>
  Every handler leaves a pending state that the renders of \<open>flush\<close> turn
  into a state satisfying \<open>inv\<close>; hence every reachable world satisfies it.
\<close>

lemma rerender_settled: "app w = rendered w \<Longrightarrow> rerender k w = w"
  by (cases k) simp_all

lemma rerender_Suc: "rerender (Suc k) w = rerender k (render w)"
  by (simp add: rerender_settled render_settled_id)

lemma flush_renders: "flush w = render (render (render w))"
  by (simp add: flush_def numeral_3_eq_3 rerender_Suc del: rerender.simps(2))

lemma flush_settled_id: "settled w \<Longrightarrow> flush w = w"
  by (simp add: flush_def settled_def rerender_settled)

lemma flush_flush [simp]: "flush (flush w) = flush w"
  by (simp add: flush_settled flush_settled_id)

lemma store_log_render:
  "store_log (render w) =
     (case currentUser (app w) of
        Some u \<Rightarrow> if currentUser (app w) \<noteq> currentUser (rendered w)
                  then store_log w @ [GetDocs u] else store_log w
      | None \<Rightarrow> store_log w)"
  by (auto simp: render_def Let_def user_effect_runs_def split: option.splits)

lemma store_log_flush:
  "store_log (flush w) =
     (case currentUser (app w) of
        Some u \<Rightarrow> if currentUser (app w) \<noteq> currentUser (rendered w)
                  then store_log w @ [GetDocs u] else store_log w
      | None \<Rightarrow> store_log w)"
  by (simp add: flush_renders store_log_render rendered_render app_render_eq split: option.splits)

lemma store_log_flush_same:
  "currentUser (app w) = currentUser (rendered w) \<Longrightarrow> store_log (flush w) = store_log w"
  by (simp add: store_log_flush split: option.splits)

lemma timer_flush:
  "timer (flush w) =
     autosave_effect (run_effects (rendered w) (app w)) (app (flush w))
       (autosave_effect (app w) (run_effects (rendered w) (app w))
          (autosave_effect (rendered w) (app w) (timer w)))"
  by (simp add: flush_renders timer_render rendered_render app_render_eq third_round)

lemma flush_timer_ok: "timer_ok w \<Longrightarrow> timer_ok (flush w)"
  by (simp add: flush_renders render_timer_ok)

lemma render_timer_ok_runs:
  "autosave_effect_runs (rendered w) (app w) \<Longrightarrow> timer_ok (render w)"
  by (auto simp: timer_ok_def rendered_render timer_render autosave_effect_def
      autosave_due_def same_draft_def render_def Let_def autosave_effect_runs_def)

lemma flush_timer_ok_runs:
  "autosave_effect_runs (rendered w) (app w) \<Longrightarrow> timer_ok (flush w)"
  by (simp add: flush_renders render_timer_ok render_timer_ok_runs)

lemma run_effects_same_deps:
  assumes "currentUser c = currentUser p" "notes c = notes p"
    "selectedNote c = selectedNote p" "currentTitle c = currentTitle p"
    "currentContent c = currentContent p"
  shows "run_effects p c = c"
  using assms
  by (simp add: run_effects_def user_effect_same selection_effect_same dirty_effect_same)

lemma app_flush_same_deps:
  assumes "currentUser (app w) = currentUser (rendered w)" "notes (app w) = notes (rendered w)"
    "selectedNote (app w) = selectedNote (rendered w)"
    "currentTitle (app w) = currentTitle (rendered w)"
    "currentContent (app w) = currentContent (rendered w)"
  shows "app (flush w) = app w"
  using assms by (simp add: app_flush run_effects_same_deps)

lemma find_note_Some:
  "find_note i ns = Some n \<Longrightarrow> n \<in> set ns \<and> id_note n = i"
  by (auto simp: find_note_def find_Some_iff)

lemma find_note_None: "find_note i ns = None \<longleftrightarrow> i \<notin> id_note ` set ns"
  by (auto simp: find_note_def find_None_iff)

lemma find_note_distinct:
  "distinct (map id_note ns) \<Longrightarrow> n \<in> set ns \<Longrightarrow> find_note (id_note n) ns = Some n"
  by (induction ns) (auto simp: find_note_def)

lemma dirty_ok_cong:
  "selectedNote a = selectedNote b \<Longrightarrow> notes a = notes b \<Longrightarrow>
   currentTitle a = currentTitle b \<Longrightarrow> currentContent a = currentContent b \<Longrightarrow>
   isDirty a = isDirty b \<Longrightarrow> dirty_ok a = dirty_ok b"
  by (simp add: dirty_ok_def cong: option.case_cong)

lemma selection_ok_cong:
  "selectedNote a = selectedNote b \<Longrightarrow> notes a = notes b \<Longrightarrow>
   selection_ok a = selection_ok b"
  by (simp add: selection_ok_def cong: option.case_cong)

lemma timer_ok_cong:
  "timer w = timer v \<Longrightarrow> rendered w = rendered v \<Longrightarrow> timer_ok w = timer_ok v"
  by (simp add: timer_ok_def cong: option.case_cong)

lemma timer_ok_simps [simp]:
  "timer_ok (queue f w) = timer_ok w"
  "timer_ok (call_store k w) = timer_ok w"
  "timer_ok (console_error m w) = timer_ok w"
  by (rule timer_ok_cong; simp)+

lemma pending_ok_queue_keeps:
  assumes "pending_ok w" and "keeps_draft f"
  shows "pending_ok (queue f w)"
proof -
  from assms(2) have k: "currentUser (f (app w)) = currentUser (app w)"
    "notes (f (app w)) = notes (app w)" "selectedNote (f (app w)) = selectedNote (app w)"
    "currentTitle (f (app w)) = currentTitle (app w)"
    "currentContent (f (app w)) = currentContent (app w)"
    "isDirty (f (app w)) = isDirty (app w)"
    by (simp_all add: keeps_draft_def)
  have d: "dirty_ok (f (app w)) = dirty_ok (app w)" by (rule dirty_ok_cong) (simp_all add: k)
  have s: "selection_ok (f (app w)) = selection_ok (app w)"
    by (rule selection_ok_cong) (simp_all add: k)
  from assms(1) show ?thesis
    by (simp add: pending_ok_def d s k user_ok_def ids_ok_def dirty_effect_runs_def
        selection_effect_runs_def)
qed

lemma pending_ok_call_store: "pending_ok w \<Longrightarrow> pending_ok (call_store k w)"
  by (simp add: pending_ok_def)

lemma pending_ok_console_error: "pending_ok w \<Longrightarrow> pending_ok (console_error m w)"
  by (simp add: pending_ok_def)

lemma keeps_draft_isSaving: "keeps_draft (\<lambda>a. a\<lparr>isSaving := b\<rparr>)"
  by (simp add: keeps_draft_def)

lemma keeps_draft_isLoading: "keeps_draft (\<lambda>a. a\<lparr>isLoading := b\<rparr>)"
  by (simp add: keeps_draft_def)

lemma keeps_draft_modal: "keeps_draft (\<lambda>a. a\<lparr>showDeleteModal := b, noteToDelete := x\<rparr>)"
  "keeps_draft (\<lambda>a. a\<lparr>noteToDelete := x, showDeleteModal := b\<rparr>)"
  by (simp_all add: keeps_draft_def)

lemma app_flush_isSaving:
  "settled w \<Longrightarrow> app (flush (queue (\<lambda>a. a\<lparr>isSaving := b\<rparr>) w)) = (app w)\<lparr>isSaving := b\<rparr>"
  by (simp add: settled_def app_flush_same_deps)

lemma inv_settled: "inv w \<Longrightarrow> settled w" by (simp add: inv_def)

lemma pending_ok_load_note:
  assumes "currentUser (app w) \<noteq> None" "ids_ok (app w)" "timer_ok w"
    and "n \<in> set (notes (app w))"
  shows "pending_ok (load_note n w)"
proof -
  from assms(2,4) have f: "find_note (id_note n) (notes (app w)) = Some n"
    by (simp add: ids_ok_def find_note_distinct)
  from assms f show ?thesis
    by (simp add: pending_ok_def load_note_def user_ok_def ids_ok_def dirty_ok_def
        selection_ok_def)
qed

lemma ids_save_map [simp]: "map id_note (save_map c now sel ns) = map id_note ns"
  by (induction ns) (simp_all add: save_map_def updated_note_def)

lemma save_map_fixed:
  assumes "save_map c now sel ns = ns" and "n \<in> set ns" and "id_note n = id_note sel"
  shows "title n = currentTitle c \<and> content n = currentContent c"
proof -
  from assms(1) have "map (\<lambda>n. if id_note n = id_note sel then updated_note c now n else n) ns
      = map (\<lambda>n. n) ns"
    by (simp add: save_map_def)
  with assms(2) have "(if id_note n = id_note sel then updated_note c now n else n) = n"
    unfolding map_eq_conv by blast
  with assms(3) have "updated_note c now n = n" by simp
  then have "title (updated_note c now n) = title n" "content (updated_note c now n) = content n"
    by simp_all
  then show ?thesis by (simp add: updated_note_def)
qed

lemma save_map_other:
  "n \<in> set ns \<Longrightarrow> id_note n \<noteq> id_note sel \<Longrightarrow> n \<in> set (save_map c now sel ns)"
  by (force simp: save_map_def)

lemma saveCurrentNote_end_eq:
  "saveCurrentNote_end c ok now w =
     (case selectedNote c of
        None \<Rightarrow> w
      | Some sel \<Rightarrow>
          if \<not> isDirty c then w
          else if ok then
            queue (\<lambda>a. a\<lparr>notes := save_map c now sel (notes a), isDirty := False,
                          isSaving := False\<rparr>) w
          else queue (\<lambda>a. a\<lparr>isSaving := False\<rparr>) (console_error ''Error saving note:'' w))"
  by (simp add: saveCurrentNote_end_def save_map_def queue_def console_error_def
      split: option.splits)

lemma pending_ok_save_end_ok:
  assumes "inv w" and "same_draft c (app w)" and "selectedNote c = Some sel"
  shows "pending_ok (queue (\<lambda>a. a\<lparr>notes := save_map c now sel (notes a), isDirty := False,
                          isSaving := False\<rparr>) w)"
proof -
  let ?a = "app w"
  from assms(1) have i: "user_ok ?a" "ids_ok ?a" "timer_ok w" "selection_ok ?a"
    and r: "rendered w = app w"
    by (auto simp: inv_def settled_def)
  from assms(2,3) have sel: "selectedNote ?a = Some sel"
    and dr: "currentTitle ?a = currentTitle c" "currentContent ?a = currentContent c"
    by (simp_all add: same_draft_def)
  from i(4) sel obtain orig where f: "find_note (id_note sel) (notes ?a) = Some orig"
    by (auto simp: selection_ok_def)
  then have o: "orig \<in> set (notes ?a)" "id_note orig = id_note sel"
    using find_note_Some by blast+
  have d: "title orig = currentTitle c \<and> content orig = currentContent c"
    if "save_map c now sel (notes ?a) = notes ?a"
    using save_map_fixed [OF that o] .
  from i sel f show ?thesis
    using d
    by (auto simp: pending_ok_def r user_ok_def ids_ok_def dirty_effect_runs_def
        selection_effect_runs_def dirty_ok_def selection_ok_def dr)
qed

lemma pending_ok_save_end:
  assumes "inv w" and "same_draft c (app w)"
  shows "pending_ok (saveCurrentNote_end c ok now w)"
proof (cases "selectedNote c")
  case None
  with assms(1) show ?thesis by (simp add: saveCurrentNote_end_eq inv_pending_ok)
next
  case (Some sel)
  show ?thesis
    using pending_ok_save_end_ok [OF assms Some] assms(1)
    by (simp add: saveCurrentNote_end_eq Some inv_pending_ok pending_ok_queue_keeps
        keeps_draft_isSaving pending_ok_console_error)
qed

lemma pending_ok_save_begin: "pending_ok w \<Longrightarrow> pending_ok (saveCurrentNote_begin c now w)"
  by (simp add: saveCurrentNote_begin_def pending_ok_call_store pending_ok_queue_keeps
      keeps_draft_isSaving split: option.splits)

lemma app_flush_save_begin:
  "settled w \<Longrightarrow> app (flush (saveCurrentNote_begin c now w)) =
     (if selectedNote c \<noteq> None \<and> isDirty c then (app w)\<lparr>isSaving := True\<rparr> else app w)"
  by (auto simp: saveCurrentNote_begin_def settled_def app_flush_same_deps flush_settled_id
      split: option.splits)

lemma same_draft_save_begin:
  "settled w \<Longrightarrow> same_draft c (app w) \<Longrightarrow>
   same_draft c (app (flush (saveCurrentNote_begin c now w)))"
  by (simp add: app_flush_save_begin same_draft_def)

lemma pending_ok_saveCurrentNote:
  assumes "inv w" and "same_draft c (app w)"
  shows "pending_ok (saveCurrentNote c ok now w)"
  unfolding saveCurrentNote_def
  using assms
  by (intro pending_ok_save_end flush_inv pending_ok_save_begin inv_pending_ok
      same_draft_save_begin inv_settled)

lemma pending_okI:
  assumes "user_ok (app w)" "ids_ok (app w)" "timer_ok w"
    and "\<not> dirty_effect_runs (rendered w) (app w) \<Longrightarrow> dirty_ok (app w)"
    and "\<not> selection_effect_runs (rendered w) (app w) \<Longrightarrow> selection_ok (app w)"
  shows "pending_ok w"
  using assms by (auto simp: pending_ok_def)

lemma inv_fields:
  assumes "inv w"
  shows "rendered w = app w" "user_ok (app w)" "selection_ok (app w)" "dirty_ok (app w)"
    "ids_ok (app w)" "timer_ok w"
  using assms by (auto simp: inv_def settled_def)

lemma pending_ok_authStateChanged:
  assumes "inv w" shows "pending_ok (authStateChanged user w)"
proof (cases user)
  case None
  note i = inv_fields [OF assms]
  show ?thesis
  proof (rule pending_okI)
    show "\<not> dirty_effect_runs (rendered (authStateChanged user w)) (app (authStateChanged user w))
        \<Longrightarrow> dirty_ok (app (authStateChanged user w))"
      using i(4) by (auto simp: None authStateChanged_def i(1) dirty_effect_runs_def dirty_ok_def)
  qed (use i in \<open>simp_all add: None authStateChanged_def user_ok_def ids_ok_def selection_ok_def\<close>)
next
  case (Some u)
  have "keeps_draft (\<lambda>a. a\<lparr>authLoading := False\<rparr>)" by (simp add: keeps_draft_def)
  then have p: "pending_ok (queue (\<lambda>a. a\<lparr>authLoading := False\<rparr>) w)"
    using assms by (simp add: pending_ok_queue_keeps inv_pending_ok)
  have d: "dirty_ok ((app w)\<lparr>currentUser := Some u, authLoading := False\<rparr>) = dirty_ok ((app w)\<lparr>authLoading := False\<rparr>)"
    by (rule dirty_ok_cong) simp_all
  have s: "selection_ok ((app w)\<lparr>currentUser := Some u, authLoading := False\<rparr>) = selection_ok ((app w)\<lparr>authLoading := False\<rparr>)"
    by (rule selection_ok_cong) simp_all
  from p show ?thesis
    by (simp add: Some authStateChanged_def pending_ok_def d s user_ok_def ids_ok_def
        dirty_effect_runs_def selection_effect_runs_def)
qed

lemma pending_ok_fetchNotes_done:
  assumes "inv w" and "case fetched of None \<Rightarrow> True | Some ns \<Rightarrow> distinct (map id_note ns)"
  shows "pending_ok (fetchNotes_done fetched w)"
proof (cases fetched)
  case None
  with assms(1) show ?thesis
    by (simp add: fetchNotes_done_def pending_ok_queue_keeps keeps_draft_isLoading
        pending_ok_console_error inv_pending_ok)
next
  case (Some ns)
  note i = inv_fields [OF assms(1)]
  let ?w = "fetchNotes_done fetched w"
  have a: "app ?w = (app w)\<lparr>notes := ns, isLoading := False\<rparr>"
    by (simp add: fetchNotes_done_def Some)
  have r: "rendered ?w = app w" by (simp add: fetchNotes_done_def Some i(1))
  show ?thesis
  proof (rule pending_okI)
    show "user_ok (app ?w)" using i(2) by (simp add: a user_ok_def)
    show "ids_ok (app ?w)" using assms(2) a by (simp add: ids_ok_def Some)
    show "timer_ok ?w" using i(6) by (simp add: fetchNotes_done_def Some)
    show "dirty_ok (app ?w)" if "\<not> dirty_effect_runs (rendered ?w) (app ?w)"
    proof -
      from that have "ns = notes (app w)" by (simp add: a r dirty_effect_runs_def)
      then have "dirty_ok (app ?w) = dirty_ok (app w)"
        unfolding a by (intro dirty_ok_cong) simp_all
      with i(4) show ?thesis by simp
    qed
    show "selection_ok (app ?w)" if "\<not> selection_effect_runs (rendered ?w) (app ?w)"
    proof -
      from that have "ns = notes (app w)" by (simp add: a r selection_effect_runs_def)
      then have "selection_ok (app ?w) = selection_ok (app w)"
        unfolding a by (intro selection_ok_cong) simp_all
      with i(3) show ?thesis by simp
    qed
  qed
qed

lemma pending_ok_setCurrentTitle:
  assumes "inv w" shows "pending_ok (setCurrentTitle v w)"
proof (cases "v = currentTitle (app w)")
  case True
  then have "setCurrentTitle v w = w" by (simp add: setCurrentTitle_def queue_def)
  with assms show ?thesis by (simp add: inv_pending_ok)
next
  case False
  note i = inv_fields [OF assms]
  show ?thesis
  proof (rule pending_okI)
    show "selection_ok (app (setCurrentTitle v w))"
    proof -
      have "selection_ok (app (setCurrentTitle v w)) = selection_ok (app w)"
        by (rule selection_ok_cong) (simp_all add: setCurrentTitle_def)
      with i(3) show ?thesis by simp
    qed
  qed (use i False in \<open>simp_all add: setCurrentTitle_def user_ok_def ids_ok_def dirty_effect_runs_def\<close>)
qed

lemma pending_ok_setCurrentContent:
  assumes "inv w" shows "pending_ok (setCurrentContent v w)"
proof (cases "v = currentContent (app w)")
  case True
  then have "setCurrentContent v w = w" by (simp add: setCurrentContent_def queue_def)
  with assms show ?thesis by (simp add: inv_pending_ok)
next
  case False
  note i = inv_fields [OF assms]
  show ?thesis
  proof (rule pending_okI)
    show "selection_ok (app (setCurrentContent v w))"
    proof -
      have "selection_ok (app (setCurrentContent v w)) = selection_ok (app w)"
        by (rule selection_ok_cong) (simp_all add: setCurrentContent_def)
      with i(3) show ?thesis by simp
    qed
  qed (use i False in \<open>simp_all add: setCurrentContent_def user_ok_def ids_ok_def dirty_effect_runs_def\<close>)
qed

lemma pending_ok_modal:
  "inv w \<Longrightarrow> pending_ok (handleDeleteNote noteId w)"
  "inv w \<Longrightarrow> pending_ok (handleCloseDeleteModal w)"
  by (simp_all add: handleDeleteNote_def handleCloseDeleteModal_def pending_ok_queue_keeps
      keeps_draft_modal inv_pending_ok)

lemma pending_ok_handleLogout: "inv w \<Longrightarrow> pending_ok (handleLogout ok w)"
  by (simp add: handleLogout_def pending_ok_authStateChanged pending_ok_console_error
      inv_pending_ok)

lemma save_end_frame [simp]:
  "currentUser (app (saveCurrentNote_end c ok now w)) = currentUser (app w)"
  "map id_note (notes (app (saveCurrentNote_end c ok now w))) = map id_note (notes (app w))"
  "timer_ok (saveCurrentNote_end c ok now w) = timer_ok w"
  by (simp_all add: saveCurrentNote_end_eq split: option.splits)

lemma save_begin_frame [simp]:
  "currentUser (app (saveCurrentNote_begin c now w)) = currentUser (app w)"
  "notes (app (saveCurrentNote_begin c now w)) = notes (app w)"
  "rendered (saveCurrentNote_begin c now w) = rendered w"
  "timer_ok (saveCurrentNote_begin c now w) = timer_ok w"
  by (simp_all add: saveCurrentNote_begin_def split: option.splits)

lemma save_frame [simp]:
  "currentUser (app (saveCurrentNote c ok now w)) = currentUser (app w)"
  "map id_note (notes (app (saveCurrentNote c ok now w))) = map id_note (notes (app w))"
  by (simp_all add: saveCurrentNote_def)

lemma save_end_member:
  assumes "n \<in> set (notes (app w))"
    and "\<And>sel. selectedNote c = Some sel \<Longrightarrow> id_note n \<noteq> id_note sel"
  shows "n \<in> set (notes (app (saveCurrentNote_end c ok now w)))"
  using assms by (simp add: saveCurrentNote_end_eq save_map_other split: option.splits)

lemma save_member:
  assumes "n \<in> set (notes (app w))"
    and "\<And>sel. selectedNote c = Some sel \<Longrightarrow> id_note n \<noteq> id_note sel"
  shows "n \<in> set (notes (app (saveCurrentNote c ok now w)))"
  unfolding saveCurrentNote_def using assms by (intro save_end_member) simp_all

lemma ids_ok_cong: "map id_note (notes a) = map id_note (notes b) \<Longrightarrow> ids_ok a = ids_ok b"
  by (simp add: ids_ok_def)

lemma pending_ok_timer_ok: "pending_ok w \<Longrightarrow> timer_ok w"
  by (simp add: pending_ok_def)

lemma same_draft_refl [simp]: "same_draft a a"
  by (simp add: same_draft_def)

lemma handleSelectNote_eq:
  "handleSelectNote c n ok now w =
     (if select_saves c n then load_note n (saveCurrentNote c ok now w)
      else flush (load_note n w))"
  by (simp add: handleSelectNote_def handleSelectNote_begin_def handleSelectNote_end_def
      saveCurrentNote_def)

lemma select_saves_id:
  "select_saves c n \<Longrightarrow> selectedNote c = Some sel \<Longrightarrow> id_note n \<noteq> id_note sel"
  by (auto simp: select_saves_def)

lemma pending_ok_handleSelectNote:
  assumes "inv w" and "currentUser (app w) \<noteq> None" and "n \<in> set (notes (app w))"
  shows "pending_ok (handleSelectNote (rendered w) n ok now w)"
proof (cases "select_saves (rendered w) n")
  case False
  note i = inv_fields [OF assms(1)]
  from assms i have "pending_ok (load_note n w)" by (intro pending_ok_load_note)
  with False show ?thesis by (simp add: handleSelectNote_eq flush_pending_ok)
next
  case True
  note i = inv_fields [OF assms(1)]
  let ?w = "saveCurrentNote (rendered w) ok now w"
  have "pending_ok ?w" using assms(1) by (intro pending_ok_saveCurrentNote) (simp_all add: i(1))
  then have t: "timer_ok ?w" by (rule pending_ok_timer_ok)
  have ids: "ids_ok (app ?w)" using i(5) ids_ok_cong [of "app ?w" "app w"] by simp
  have m: "n \<in> set (notes (app ?w))"
    using assms(3) select_saves_id [OF True] by (intro save_member) auto
  from assms(2) ids t m have "pending_ok (load_note n ?w)"
    by (intro pending_ok_load_note) simp_all
  with True show ?thesis by (simp add: handleSelectNote_eq)
qed

lemma handleAddNewNote_eq:
  "handleAddNewNote c ok1 t1 tc tm added ok2 t2 w =
     (case currentUser c of
        None \<Rightarrow> console_error ''No user logged in. Cannot add note.''
                 (if selectedNote c \<noteq> None \<and> isDirty c then saveCurrentNote c ok1 t1 w else w)
      | Some uid \<Rightarrow>
          (case added of
             None \<Rightarrow> queue (\<lambda>a. a\<lparr>isSaving := False\<rparr>)
               (console_error ''Error adding new note: ''
                 (add_awaits c ok1 t1 (AddDoc ''Untitled Note'' [] tc tm uid) w))
           | Some docId \<Rightarrow>
               handleSelectNote_end c (newNoteData tc tm uid docId) ok2 t2
                 (flush (queue (\<lambda>a. a\<lparr>isSaving := False\<rparr>)
                   (handleSelectNote_begin c (newNoteData tc tm uid docId) t2
                     (queue (\<lambda>a. a\<lparr>notes := newNoteData tc tm uid docId # notes a\<rparr>)
                       (add_awaits c ok1 t1 (AddDoc ''Untitled Note'' [] tc tm uid) w)))))))"
  by (simp add: handleAddNewNote_def add_awaits_def Let_def split: option.splits)

lemma inv_add_awaits:
  assumes "inv w"
  shows "inv (add_awaits (rendered w) ok1 t1 k w)"
proof -
  note i = inv_fields [OF assms]
  have "pending_ok (if selectedNote (rendered w) \<noteq> None \<and> isDirty (rendered w)
      then saveCurrentNote (rendered w) ok1 t1 w else w)"
    using assms by (simp add: pending_ok_saveCurrentNote i(1) inv_pending_ok)
  then show ?thesis
    unfolding add_awaits_def
    by (intro flush_inv pending_ok_call_store pending_ok_queue_keeps keeps_draft_isSaving)
qed

lemma add_awaits_frame [simp]:
  "currentUser (app (add_awaits c ok1 t1 k w)) = currentUser (app w)"
  "map id_note (notes (app (add_awaits c ok1 t1 k w))) = map id_note (notes (app w))"
  by (simp_all add: add_awaits_def)

lemma add_awaits_id_set:
  "id_note ` set (notes (app (add_awaits c ok1 t1 k w))) = id_note ` set (notes (app w))"
proof -
  have "set (map id_note (notes (app (add_awaits c ok1 t1 k w)))) =
      set (map id_note (notes (app w)))"
    by (simp only: add_awaits_frame)
  then show ?thesis by (simp only: set_map)
qed

lemma pending_ok_cons_note:
  assumes "inv w" and "id_note n \<notin> id_note ` set (notes (app w))"
  shows "pending_ok (queue (\<lambda>a. a\<lparr>notes := n # notes a\<rparr>) w)"
proof (rule pending_okI)
  note i = inv_fields [OF assms(1)]
  let ?w = "queue (\<lambda>a. a\<lparr>notes := n # notes a\<rparr>) w"
  show "user_ok (app ?w)" using i(2) by (simp add: user_ok_def)
  show "ids_ok (app ?w)" using i(5) assms(2) by (simp add: ids_ok_def)
  show "timer_ok ?w" using i(6) by simp
  show "dirty_ok (app ?w)" if "\<not> dirty_effect_runs (rendered ?w) (app ?w)"
    using that by (simp add: dirty_effect_runs_def i(1))
  show "selection_ok (app ?w)" if "\<not> selection_effect_runs (rendered ?w) (app ?w)"
    using that by (simp add: selection_effect_runs_def i(1))
qed

lemma pending_ok_handleAddNewNote:
  assumes "inv w" and "currentUser (app w) \<noteq> None"
    and "case added of None \<Rightarrow> True | Some docId \<Rightarrow> docId \<notin> id_note ` set (notes (app w))"
  shows "pending_ok (handleAddNewNote (rendered w) ok1 t1 tc tm added ok2 t2 w)"
proof -
  note i = inv_fields [OF assms(1)]
  let ?c = "rendered w"
  from assms(2) obtain uid where uid: "currentUser ?c = Some uid" by (auto simp: i(1))
  let ?k = "AddDoc ''Untitled Note'' [] tc tm uid"
  let ?w2 = "add_awaits ?c ok1 t1 ?k w"
  have i2: "inv ?w2" using assms(1) by (rule inv_add_awaits)
  show ?thesis
  proof (cases added)
    case None
    have "pending_ok (queue (\<lambda>a. a\<lparr>isSaving := False\<rparr>)
        (console_error ''Error adding new note: '' ?w2))"
      using i2
      by (intro pending_ok_queue_keeps keeps_draft_isSaving pending_ok_console_error inv_pending_ok)
    then show ?thesis by (simp add: handleAddNewNote_eq uid None)
  next
    case (Some docId)
    let ?n = "newNoteData tc tm uid docId"
    let ?w3 = "queue (\<lambda>a. a\<lparr>notes := ?n # notes a\<rparr>) ?w2"
    have idn: "id_note ?n = docId" by (simp add: newNoteData_def)
    from assms(3) have fresh: "docId \<notin> id_note ` set (notes (app ?w2))"
      by (simp add: Some add_awaits_id_set)
    then have p3: "pending_ok ?w3" using i2 by (intro pending_ok_cons_note) (simp_all add: idn)
    have u3: "currentUser (app ?w3) \<noteq> None" using assms(2) by simp
    show ?thesis
    proof (cases "select_saves ?c ?n")
      case True
      let ?w5 = "flush (queue (\<lambda>a. a\<lparr>isSaving := False\<rparr>) (saveCurrentNote_begin ?c t2 ?w3))"
      have "pending_ok (saveCurrentNote_begin ?c t2 ?w3)"
        using p3 by (rule pending_ok_save_begin)
      then have "pending_ok (queue (\<lambda>a. a\<lparr>isSaving := False\<rparr>) (saveCurrentNote_begin ?c t2 ?w3))"
        using keeps_draft_isSaving by (rule pending_ok_queue_keeps)
      then have i5: "inv ?w5" by (rule flush_inv)
      let ?w6 = "saveCurrentNote_end ?c ok2 t2 ?w5"
      have "ids_ok (app ?w6) = ids_ok (app ?w5)" by (rule ids_ok_cong) simp
      with i5 have ids: "ids_ok (app ?w6)" by (simp add: inv_def)
      have t: "timer_ok ?w6" using i5 by (simp add: inv_def)
      have "?n \<in> set (notes (app ?w5))" by simp
      then have m: "?n \<in> set (notes (app ?w6))"
        using select_saves_id [OF True] by (intro save_end_member) auto
      have "currentUser (app ?w6) \<noteq> None" using assms(2) by simp
      then have "pending_ok (load_note ?n ?w6)"
        using ids t m by (intro pending_ok_load_note)
      with True show ?thesis
        by (simp add: handleAddNewNote_eq uid Some handleSelectNote_end_def
            handleSelectNote_begin_def)
    next
      case False
      have "pending_ok (load_note ?n ?w3)"
        using u3 p3 by (intro pending_ok_load_note) (simp_all add: pending_ok_def)
      then have "pending_ok (queue (\<lambda>a. a\<lparr>isSaving := False\<rparr>) (load_note ?n ?w3))"
        using keeps_draft_isSaving by (rule pending_ok_queue_keeps)
      then have "pending_ok (flush (queue (\<lambda>a. a\<lparr>isSaving := False\<rparr>) (load_note ?n ?w3)))"
        by (rule flush_pending_ok)
      with False show ?thesis
        by (simp add: handleAddNewNote_eq uid Some handleSelectNote_end_def
            handleSelectNote_begin_def)
    qed
  qed
qed

lemma pending_ok_delete_clear:
  assumes "inv w"
  shows "pending_ok (queue (\<lambda>a. a\<lparr>selectedNote := None, currentTitle := [],
            currentContent := [], isDirty := False\<rparr>)
          (queue (\<lambda>a. a\<lparr>notes := filter (\<lambda>n. id_note n \<noteq> d) (notes a)\<rparr>) w))"
  using inv_fields [OF assms]
  by (intro pending_okI)
    (simp_all add: user_ok_def ids_ok_def dirty_ok_def selection_ok_def distinct_map_filter)

lemma pending_ok_delete_filter:
  assumes "inv w"
  shows "pending_ok (queue (\<lambda>a. a\<lparr>notes := filter (\<lambda>n. id_note n \<noteq> d) (notes a)\<rparr>) w)"
proof (rule pending_okI)
  note i = inv_fields [OF assms]
  let ?w = "queue (\<lambda>a. a\<lparr>notes := filter (\<lambda>n. id_note n \<noteq> d) (notes a)\<rparr>) w"
  show "user_ok (app ?w)" using i(2) by (simp add: user_ok_def)
  show "ids_ok (app ?w)" using i(5) by (simp add: ids_ok_def distinct_map_filter)
  show "timer_ok ?w" using i(6) by simp
  show "dirty_ok (app ?w)" if "\<not> dirty_effect_runs (rendered ?w) (app ?w)"
  proof -
    from that have "filter (\<lambda>n. id_note n \<noteq> d) (notes (app w)) = notes (app w)"
      by (simp add: dirty_effect_runs_def i(1))
    then have "dirty_ok (app ?w) = dirty_ok (app w)" by (intro dirty_ok_cong) simp_all
    with i(4) show ?thesis by simp
  qed
  show "selection_ok (app ?w)" if "\<not> selection_effect_runs (rendered ?w) (app ?w)"
  proof -
    from that have "filter (\<lambda>n. id_note n \<noteq> d) (notes (app w)) = notes (app w)"
      by (simp add: selection_effect_runs_def i(1))
    then have "selection_ok (app ?w) = selection_ok (app w)" by (intro selection_ok_cong) simp_all
    with i(3) show ?thesis by simp
  qed
qed

lemma handleConfirmDelete_eq:
  "handleConfirmDelete c ok w =
     (case noteToDelete c of
        None \<Rightarrow> w
      | Some d \<Rightarrow>
          handleCloseDeleteModal (queue (\<lambda>a. a\<lparr>isSaving := False\<rparr>)
            (let w1 = flush (call_store (DeleteDoc d) (queue (\<lambda>a. a\<lparr>isSaving := True\<rparr>) w))
             in if \<not> ok then console_error ''Error deleting note:'' w1
                else if (case selectedNote c of None \<Rightarrow> False | Some sel \<Rightarrow> id_note sel = d)
                then queue (\<lambda>a. a\<lparr>selectedNote := None, currentTitle := [],
                        currentContent := [], isDirty := False\<rparr>)
                      (queue (\<lambda>a. a\<lparr>notes := filter (\<lambda>n. id_note n \<noteq> d) (notes a)\<rparr>) w1)
                else queue (\<lambda>a. a\<lparr>notes := filter (\<lambda>n. id_note n \<noteq> d) (notes a)\<rparr>) w1)))"
  by (simp add: handleConfirmDelete_def Let_def split: option.splits)

lemma pending_ok_handleConfirmDelete:
  assumes "inv w"
  shows "pending_ok (handleConfirmDelete c ok w)"
proof (cases "noteToDelete c")
  case None
  with assms show ?thesis by (simp add: handleConfirmDelete_eq inv_pending_ok)
next
  case (Some d)
  let ?w1 = "flush (call_store (DeleteDoc d) (queue (\<lambda>a. a\<lparr>isSaving := True\<rparr>) w))"
  have "pending_ok (queue (\<lambda>a. a\<lparr>isSaving := True\<rparr>) w)"
    using inv_pending_ok [OF assms] keeps_draft_isSaving by (rule pending_ok_queue_keeps)
  then have i1: "inv ?w1" by (intro flush_inv pending_ok_call_store)
  let ?w2 = "if \<not> ok then console_error ''Error deleting note:'' ?w1
                else if (case selectedNote c of None \<Rightarrow> False | Some sel \<Rightarrow> id_note sel = d)
                then queue (\<lambda>a. a\<lparr>selectedNote := None, currentTitle := [],
                        currentContent := [], isDirty := False\<rparr>)
                      (queue (\<lambda>a. a\<lparr>notes := filter (\<lambda>n. id_note n \<noteq> d) (notes a)\<rparr>) ?w1)
                else queue (\<lambda>a. a\<lparr>notes := filter (\<lambda>n. id_note n \<noteq> d) (notes a)\<rparr>) ?w1"
  have "pending_ok ?w2"
    using i1 pending_ok_delete_clear [OF i1, of d] pending_ok_delete_filter [OF i1, of d]
    by (simp add: pending_ok_console_error inv_pending_ok)
  then have "pending_ok (queue (\<lambda>a. a\<lparr>isSaving := False\<rparr>) ?w2)"
    using keeps_draft_isSaving by (rule pending_ok_queue_keeps)
  then have "pending_ok (handleCloseDeleteModal (queue (\<lambda>a. a\<lparr>isSaving := False\<rparr>) ?w2))"
    unfolding handleCloseDeleteModal_def using keeps_draft_modal(1) by (rule pending_ok_queue_keeps)
  then show ?thesis by (simp add: handleConfirmDelete_eq Some Let_def)
qed

lemma render_ignores_timer:
  "autosave_effect_runs (rendered w) (app w) \<Longrightarrow> render (w\<lparr>timer := tm\<rparr>) = render w"
proof -
  assume "autosave_effect_runs (rendered w) (app w)"
  moreover from this have "app w \<noteq> rendered w"
    by (auto simp: autosave_effect_runs_def)
  ultimately show ?thesis
    by (cases "currentUser (app w)") (simp_all add: render_def Let_def autosave_effect_def)
qed

lemma fired_save_begin:
  assumes "settled w" "\<not> isSaving (app w)" "selectedNote c \<noteq> None" "isDirty c"
  shows "flush (saveCurrentNote_begin c now (w\<lparr>timer := None\<rparr>)) =
         flush (saveCurrentNote_begin c now w)"
proof -
  from assms(3,4) have b: "saveCurrentNote_begin c now (w\<lparr>timer := None\<rparr>) =
      (saveCurrentNote_begin c now w)\<lparr>timer := None\<rparr>"
    by (auto simp: saveCurrentNote_begin_def queue_def call_store_def)
  have "autosave_effect_runs (rendered (saveCurrentNote_begin c now w))
      (app (saveCurrentNote_begin c now w))"
    using assms by (auto simp: saveCurrentNote_begin_def autosave_effect_runs_def settled_def)
  then show ?thesis
    by (simp add: flush_renders b render_ignores_timer)
qed

lemma fired_save:
  assumes "inv w" and "timer w = Some (r, c)"
  shows "saveCurrentNote c ok now (w\<lparr>timer := None\<rparr>) = saveCurrentNote c ok now w"
    and "inv (flush (saveCurrentNote c ok now (w\<lparr>timer := None\<rparr>)))"
    and "same_draft c (app w)" and "selectedNote c \<noteq> None" and "isDirty c"
proof -
  note i = inv_fields [OF assms(1)]
  from i(6) have t: "autosave_due (rendered w)" "same_draft c (rendered w)"
    by (simp_all add: timer_ok_def assms(2))
  then show g: "selectedNote c \<noteq> None" "isDirty c"
    by (auto simp: autosave_due_def same_draft_def)
  from t(1) have ns: "\<not> isSaving (app w)" by (simp add: autosave_due_def i(1))
  show sd: "same_draft c (app w)" using t(2) by (simp add: i(1))
  show eq: "saveCurrentNote c ok now (w\<lparr>timer := None\<rparr>) = saveCurrentNote c ok now w"
    using assms(1) g ns by (simp add: saveCurrentNote_def fired_save_begin inv_settled)
  have "pending_ok (saveCurrentNote c ok now w)"
    using assms(1) sd by (rule pending_ok_saveCurrentNote)
  then show "inv (flush (saveCurrentNote c ok now (w\<lparr>timer := None\<rparr>)))"
    unfolding eq by (rule flush_inv)
qed

lemma inv_countdown:
  assumes "inv w" and "timer w = Some (r, c)" and "d < r"
  shows "inv (w\<lparr>timer := Some (r - d, c)\<rparr>)"
proof -
  note i = inv_fields [OF assms(1)]
  from i(6) have "autosave_due (rendered w)" "same_draft c (rendered w)" "r \<le> 1500"
    by (simp_all add: timer_ok_def assms(2))
  with assms(3) have "timer_ok (w\<lparr>timer := Some (r - d, c)\<rparr>)"
    by (simp add: timer_ok_def)
  with assms(1) show ?thesis by (simp add: inv_def settled_def i(1) [symmetric])
qed

lemma inv_elapse_loop: "inv w \<Longrightarrow> inv (elapse_loop k d answer i w)"
proof (induction k arbitrary: d i w)
  case 0
  then show ?case by simp
next
  case (Suc k)
  show ?case
  proof (cases "timer w")
    case None
    with Suc.prems show ?thesis by simp
  next
    case (Some rc)
    obtain r c where rc: "rc = (r, c)" by (cases rc)
    show ?thesis
    proof (cases "d < r")
      case True
      with Suc.prems Some rc show ?thesis by (simp add: inv_countdown)
    next
      case False
      have "inv (flush (saveCurrentNote c (fst (answer i)) (snd (answer i))
          (w\<lparr>timer := None\<rparr>)))"
        using Suc.prems Some [unfolded rc] by (rule fired_save(2))
      then have "inv (elapse_loop k (d - r) answer (Suc i)
          (flush (saveCurrentNote c (fst (answer i)) (snd (answer i)) (w\<lparr>timer := None\<rparr>))))"
        by (rule Suc.IH)
      with False Some rc show ?thesis by simp
    qed
  qed
qed

lemma inv_elapse: "inv w \<Longrightarrow> inv (elapse d answer w)"
  by (simp add: elapse_def inv_elapse_loop del: elapse_loop.simps)

lemma step_Elapse: "inv w \<Longrightarrow> step (Elapse d answer) w = elapse d answer w"
  by (simp add: inv_elapse inv_settled flush_settled_id)

text \<open>
  More fuel than \<open>d\<close> changes nothing: in a state satisfying \<open>inv\<close> the
  timeout has at least a millisecond left, so every expiry shortens the
  period.
\<close>

lemma elapse_loop_fuel_eq:
  "inv w \<Longrightarrow> d < k \<Longrightarrow> d < k' \<Longrightarrow>
   elapse_loop k d answer i w = elapse_loop k' d answer i w"
proof (induction d arbitrary: k k' i w rule: less_induct)
  case (less d)
  obtain k1 k1' where k: "k = Suc k1" "k' = Suc k1'"
    using less.prems(2,3) by (cases k; cases k') auto
  show ?case
  proof (cases "timer w")
    case None
    then show ?thesis by (simp add: k)
  next
    case (Some rc)
    obtain r c where rc: "rc = (r, c)" by (cases rc)
    show ?thesis
    proof (cases "d < r")
      case True
      with Some rc show ?thesis by (simp add: k)
    next
      case False
      from less.prems(1) have "timer_ok w" by (simp add: inv_def)
      then have "0 < r" by (simp add: timer_ok_def Some rc)
      with False have lt: "d - r < d" by simp
      let ?w = "flush (saveCurrentNote c (fst (answer i)) (snd (answer i)) (w\<lparr>timer := None\<rparr>))"
      have "inv ?w" using less.prems(1) Some [unfolded rc] by (rule fired_save(2))
      moreover have "d - r < k1" "d - r < k1'" using lt less.prems(2,3) k by simp_all
      ultimately have "elapse_loop k1 (d - r) answer (Suc i) ?w =
          elapse_loop k1' (d - r) answer (Suc i) ?w"
        using lt by (intro less.IH)
      with False Some rc show ?thesis by (simp add: k)
    qed
  qed
qed

lemma elapse_loop_fuel:
  "inv w \<Longrightarrow> d < k \<Longrightarrow> elapse_loop k d answer i w = elapse_loop (Suc d) d answer i w"
  by (rule elapse_loop_fuel_eq) simp_all

theorem inv_step: "inv w \<Longrightarrow> enabled e w \<Longrightarrow> inv (step e w)"
  by (cases e)
    (simp_all add: flush_inv pending_ok_authStateChanged pending_ok_fetchNotes_done
      pending_ok_setCurrentTitle pending_ok_setCurrentContent pending_ok_handleSelectNote
      pending_ok_handleAddNewNote pending_ok_modal pending_ok_handleConfirmDelete
      pending_ok_handleLogout inv_elapse inv_settled flush_settled_id)

lemma inv_mount: "inv mount"
  by code_simp

theorem reachable_inv: "reachable w \<Longrightarrow> inv w"
  by (induction rule: reachable.induct) (simp_all add: inv_mount inv_step)

section \<open>The example worlds are reachable\<close>

lemma reachable_ex_listed: "reachable ex_listed"
proof -
  have e1: "enabled (AuthChanged (Some ''u1'')) mount" by simp
  have r1: "reachable (step (AuthChanged (Some ''u1'')) mount)"
    using reachable_mount e1 by (rule reachable_step)
  have e2: "enabled (FetchDone (Some [note_a, note_b])) (step (AuthChanged (Some ''u1'')) mount)"
    by (simp add: note_a_def note_b_def)
  show ?thesis unfolding ex_listed_def using r1 e2 by (rule reachable_step)
qed

lemma reachable_ex_clean: "reachable ex_clean"
proof -
  have "enabled (Select note_b True 0) ex_listed" by code_simp
  with reachable_ex_listed show ?thesis unfolding ex_clean_def by (rule reachable_step)
qed

lemma reachable_ex_dirty: "reachable ex_dirty"
proof -
  have "enabled (EditTitle ''B2'') ex_clean" by code_simp
  with reachable_ex_clean show ?thesis unfolding ex_dirty_def by (rule reachable_step)
qed

section \<open>Dirty tracking\<close>

text \<open>
  Claim C7. In every reachable state in which a note is selected and the list
  has an entry with its identifier, \<open>isDirty\<close> is true if and only if the
  title of the draft differs from the title of that entry or the content of
  the draft differs from its content; when no note is selected, \<open>isDirty\<close>
  is false.
\<close>

theorem dirty_flag_tracks_draft:
  assumes "reachable w"
  shows "(selectedNote (app w) = None \<longrightarrow> \<not> isDirty (app w)) \<and>
         (\<forall>sel orig. selectedNote (app w) = Some sel \<longrightarrow>
            find_note (id_note sel) (notes (app w)) = Some orig \<longrightarrow>
            (isDirty (app w) \<longleftrightarrow>
               currentTitle (app w) \<noteq> title orig \<or> currentContent (app w) \<noteq> content orig))"
proof -
  from assms have "dirty_ok (app w)" using reachable_inv by (auto simp: inv_def)
  then show ?thesis by (auto simp: dirty_ok_def split: option.splits)
qed

theorem dirty_flag_tracks_draft_witness:
  "reachable ex_dirty \<and> selectedNote (app ex_dirty) = Some note_b \<and>
   find_note (id_note note_b) (notes (app ex_dirty)) = Some note_b \<and>
   isDirty (app ex_dirty) \<and> currentTitle (app ex_dirty) \<noteq> title note_b \<and>
   reachable ex_clean \<and> selectedNote (app ex_clean) = Some note_b \<and>
   find_note (id_note note_b) (notes (app ex_clean)) = Some note_b \<and>
   \<not> isDirty (app ex_clean) \<and> currentTitle (app ex_clean) = title note_b \<and>
   currentContent (app ex_clean) = content note_b \<and>
   reachable ex_listed \<and> selectedNote (app ex_listed) = None \<and> \<not> isDirty (app ex_listed)"
proof -
  have s: "selectedNote (app ex_dirty) = Some note_b" "selectedNote (app ex_clean) = Some note_b"
    "selectedNote (app ex_listed) = None"
    by code_simp+
  have f: "find_note (id_note note_b) (notes (app ex_dirty)) = Some note_b"
    "find_note (id_note note_b) (notes (app ex_clean)) = Some note_b"
    by code_simp+
  have t: "currentTitle (app ex_dirty) \<noteq> title note_b" "currentTitle (app ex_clean) = title note_b"
    "currentContent (app ex_clean) = content note_b"
    by code_simp+
  from dirty_flag_tracks_draft [OF reachable_ex_dirty] dirty_flag_tracks_draft [OF reachable_ex_clean]
    dirty_flag_tracks_draft [OF reachable_ex_listed]
  show ?thesis
    using s f t reachable_ex_dirty reachable_ex_clean reachable_ex_listed by simp
qed

section \<open>The selection guard\<close>

lemma missing_selection:
  assumes "selection_ok (rendered w)"
    and "selectedNote (app w) = Some sel"
    and "find_note (id_note sel) (notes (app w)) = None"
  shows "empty_draft (app (flush w))"
proof -
  let ?p = "rendered w" and ?c = "app w"
  from assms have runs: "selection_effect_runs ?p ?c"
    by (auto simp: selection_effect_runs_def selection_ok_def split: option.splits)
  then have druns: "dirty_effect_runs ?p ?c"
    by (auto simp: selection_effect_runs_def dirty_effect_runs_def)
  let ?a = "run_effects ?p ?c"
  from runs druns assms(2,3)
  have a: "selectedNote ?a = None" "currentTitle ?a = []" "currentContent ?a = []"
    by (simp_all add: run_effects_def selection_effect_def dirty_effect_def)
  have "app (flush w) = dirty_effect ?c ?a ?a"
    by (simp add: app_flush second_round)
  moreover have "dirty_effect_runs ?c ?a" using a(1) assms(2) by (simp add: dirty_effect_runs_def)
  ultimately show ?thesis
    using a by (simp add: empty_draft_def dirty_effect_def)
qed

text \<open>
  Claim C8. In a reachable state the selected note has an entry in the list;
  and whenever an update queued in a reachable state leaves a selected note
  with no entry of its identifier in the list, the next rendering forces the
  draft to empty: the selection, the title, the content and \<open>isDirty\<close> are
  cleared.
\<close>

theorem missing_selection_empties_draft:
  assumes "reachable w"
  shows "(\<forall>sel. selectedNote (app w) = Some sel \<longrightarrow>
            find_note (id_note sel) (notes (app w)) \<noteq> None) \<and>
         (\<forall>f sel. selectedNote (f (app w)) = Some sel \<longrightarrow>
            find_note (id_note sel) (notes (f (app w))) = None \<longrightarrow>
            empty_draft (app (flush (queue f w))))"
proof -
  from assms have i: "inv w" by (rule reachable_inv)
  then have s: "selection_ok (app w)" and r: "rendered w = app w"
    by (auto simp: inv_def settled_def)
  from s have "\<forall>sel. selectedNote (app w) = Some sel \<longrightarrow>
      find_note (id_note sel) (notes (app w)) \<noteq> None"
    by (auto simp: selection_ok_def)
  moreover have "empty_draft (app (flush (queue f w)))"
    if "selectedNote (f (app w)) = Some sel" "find_note (id_note sel) (notes (f (app w))) = None"
    for f sel
    using that s by (intro missing_selection [where sel = sel]) (simp_all add: r)
  ultimately show ?thesis by blast
qed

theorem missing_selection_empties_draft_witness:
  "reachable ex_dirty \<and> selectedNote (app ex_dirty) = Some note_b \<and>
   find_note (id_note note_b) (notes (app ex_dirty)) \<noteq> None \<and>
   find_note (id_note note_b) [note_a] = None \<and>
   empty_draft (app (flush (queue (\<lambda>a. a\<lparr>notes := [note_a]\<rparr>) ex_dirty)))"
proof -
  have s: "selectedNote (app ex_dirty) = Some note_b" by code_simp
  have f: "find_note (id_note note_b) [note_a] = None" by code_simp
  from missing_selection_empties_draft [OF reachable_ex_dirty]
  show ?thesis using s f reachable_ex_dirty by simp
qed

section \<open>Logout\<close>

lemma dirty_effect_no_selection:
  "selectedNote c = None \<Longrightarrow> \<not> isDirty a \<Longrightarrow> dirty_effect p c a = a"
  by (simp add: dirty_effect_def)

lemma inv_timer_None: "inv w \<Longrightarrow> \<not> isDirty (app w) \<Longrightarrow> timer w = None"
  by (auto simp: inv_def settled_def timer_ok_def autosave_due_def split: option.splits)

lemma app_logout:
  assumes "currentUser (rendered w) \<noteq> None"
  shows "app (flush (authStateChanged None w)) =
     (app w)\<lparr>currentUser := None, authLoading := False, notes := [], selectedNote := None,
       isLoading := False, currentTitle := [], currentContent := [], isDirty := False\<rparr>"
proof -
  let ?c = "app (authStateChanged None w)" and ?p = "rendered w"
  let ?u = "?c\<lparr>isLoading := False, currentTitle := [], currentContent := [], isDirty := False\<rparr>"
  have c: "?c = (app w)\<lparr>currentUser := None, authLoading := False, notes := [], selectedNote := None\<rparr>"
    by (simp add: authStateChanged_def)
  have "user_effect ?p ?c ?c = ?u"
    using assms by (auto simp: c user_effect_def user_effect_runs_def)
  then have "run_effects ?p ?c = ?u"
    by (simp add: run_effects_def selection_effect_none dirty_effect_no_selection c)
  moreover have "run_effects ?c ?u = ?u"
    by (simp add: run_effects_def user_effect_same selection_effect_none
        dirty_effect_no_selection c)
  moreover have "rendered (authStateChanged None w) = ?p" by (simp add: authStateChanged_def)
  ultimately show ?thesis by (simp add: app_flush c)
qed

text \<open>
  Claim C6. From every reachable state with a user, dirty or not, the end of
  the session leaves an empty list, no selected note, an empty title and
  content of the draft and \<open>isDirty\<close> false. No save is attempted: no call
  is made to the store and no timeout of the auto-save effect is left
  pending.
\<close>

theorem logout_clears_cache_and_draft:
  assumes "reachable w" and "enabled (Logout True) w"
  shows "let w' = step (Logout True) w
         in currentUser (app w') = None \<and> notes (app w') = [] \<and>
            selectedNote (app w') = None \<and> currentTitle (app w') = [] \<and>
            currentContent (app w') = [] \<and> \<not> isDirty (app w') \<and>
            timer w' = None \<and> store_log w' = store_log w"
proof -
  from assms(1) have i: "inv w" by (rule reachable_inv)
  then have r: "rendered w = app w" by (simp add: inv_def settled_def)
  from assms(2) have u: "currentUser (rendered w) \<noteq> None" by (simp add: r)
  let ?w' = "flush (authStateChanged None w)"
  note a = app_logout [OF u]
  have "inv (step (Logout True) w)" using i assms(2) by (rule inv_step)
  then have "inv ?w'" by (simp add: handleLogout_def)
  moreover have "\<not> isDirty (app ?w')" by (simp add: a)
  ultimately have t: "timer ?w' = None" by (rule inv_timer_None)
  have l: "store_log ?w' = store_log w"
    by (simp add: store_log_flush authStateChanged_def)
  show ?thesis
    by (simp add: Let_def handleLogout_def t l del: flush_fields) (simp add: a)
qed

theorem logout_clears_cache_and_draft_witness:
  "reachable ex_dirty \<and> enabled (Logout True) ex_dirty \<and> isDirty (app ex_dirty) \<and>
   timer ex_dirty \<noteq> None \<and>
   (let w' = step (Logout True) ex_dirty
    in currentUser (app w') = None \<and> notes (app w') = [] \<and>
       selectedNote (app w') = None \<and> currentTitle (app w') = [] \<and>
       currentContent (app w') = [] \<and> \<not> isDirty (app w') \<and>
       timer w' = None \<and> store_log w' = store_log ex_dirty)"
proof -
  have e: "enabled (Logout True) ex_dirty" by code_simp
  have d: "isDirty (app ex_dirty)" "timer ex_dirty \<noteq> None" by code_simp+
  from logout_clears_cache_and_draft [OF reachable_ex_dirty e]
  show ?thesis using reachable_ex_dirty e d by simp
qed

section \<open>Rendering a consistent state changes nothing\<close>

lemma run_effects_consistent:
  assumes "currentUser c = currentUser p" "selection_ok c" "dirty_ok c"
  shows "run_effects p c = c"
proof -
  have u: "user_effect p c c = c" using assms(1) by (rule user_effect_same)
  have s: "selection_effect p c c = c"
    using assms(2) by (auto simp: selection_effect_def selection_ok_def split: option.splits)
  have "isDirty (dirty_effect p c c) = isDirty c"
    using assms(3) by (auto simp: dirty_effect_def dirty_ok_def split: option.splits)
  then have "dirty_effect p c c = c"
    using dirty_effect_isDirty [of p c c] by simp
  with u s show ?thesis by (simp add: run_effects_def)
qed

lemma app_flush_consistent:
  assumes "currentUser (app w) = currentUser (rendered w)"
    and "selection_ok (app w)" "dirty_ok (app w)"
  shows "app (flush w) = app w"
  using assms by (simp add: app_flush run_effects_consistent)

lemma timer_flush_consistent:
  assumes "currentUser (app w) = currentUser (rendered w)"
    and "selection_ok (app w)" "dirty_ok (app w)"
  shows "timer (flush w) = autosave_effect (rendered w) (app w) (timer w)"
  using assms by (simp add: timer_flush app_flush_consistent run_effects_consistent)

lemma store_log_saveCurrentNote:
  assumes "currentUser (app w) = currentUser (rendered w)"
  shows "store_log (saveCurrentNote c ok now w) =
     (case selectedNote c of
        None \<Rightarrow> store_log w
      | Some sel \<Rightarrow>
          if isDirty c
          then store_log w @ [UpdateDoc (id_note sel) (currentTitle c) (currentContent c) now]
          else store_log w)"
proof -
  have b: "store_log (flush (saveCurrentNote_begin c now w)) = store_log (saveCurrentNote_begin c now w)"
    using assms by (intro store_log_flush_same) simp
  have "store_log (saveCurrentNote c ok now w) = store_log (saveCurrentNote_begin c now w)"
    by (simp add: saveCurrentNote_def saveCurrentNote_end_eq b split: option.splits)
  then show ?thesis
    by (simp add: saveCurrentNote_begin_def split: option.splits)
qed

lemma notes_saveCurrentNote_any:
  "notes (app (saveCurrentNote c ok now w)) =
     (case selectedNote c of
        None \<Rightarrow> notes (app w)
      | Some sel \<Rightarrow>
          if isDirty c \<and> ok then save_map c now sel (notes (app w)) else notes (app w))"
  by (simp add: saveCurrentNote_def saveCurrentNote_end_eq split: option.splits)

lemma console_saveCurrentNote:
  "console (saveCurrentNote c ok now w) =
     (if selectedNote c \<noteq> None \<and> isDirty c \<and> \<not> ok
      then console w @ [''Error saving note:''] else console w)"
  by (auto simp: saveCurrentNote_def saveCurrentNote_end_eq saveCurrentNote_begin_def
      split: option.splits)

lemma rendered_saveCurrentNote:
  "currentUser (rendered (saveCurrentNote c ok now w)) = currentUser (app w)"
  by (simp add: saveCurrentNote_def saveCurrentNote_end_eq split: option.splits)

lemma loaded_consistent:
  assumes "ids_ok a" and "n \<in> set (notes a)"
  shows "selection_ok (a\<lparr>selectedNote := Some n, currentTitle := title n,
            currentContent := content n, isDirty := False\<rparr>)"
    and "dirty_ok (a\<lparr>selectedNote := Some n, currentTitle := title n,
            currentContent := content n, isDirty := False\<rparr>)"
  using assms find_note_distinct [of "notes a" n]
  by (simp_all add: selection_ok_def dirty_ok_def ids_ok_def)

lemma notes_load_note [simp]: "notes (app (load_note n w)) = notes (app w)"
  by (simp add: load_note_def)

lemma app_flush_load_note:
  assumes "currentUser (app w) = currentUser (rendered w)" "ids_ok (app w)"
    and "n \<in> set (notes (app w))"
  shows "app (flush (load_note n w)) =
     (app w)\<lparr>selectedNote := Some n, currentTitle := title n,
              currentContent := content n, isDirty := False\<rparr>"
proof -
  have "app (flush (load_note n w)) = app (load_note n w)"
    using assms loaded_consistent [OF assms(2,3)]
    by (intro app_flush_consistent) (simp_all add: load_note_def)
  then show ?thesis by (simp add: load_note_def)
qed

lemma app_saveCurrentNote:
  assumes "settled w"
  shows "app (saveCurrentNote c ok now w) =
     (if selectedNote c \<noteq> None \<and> isDirty c
      then (app w)\<lparr>notes := saved_notes c ok now (notes (app w)),
             isDirty := isDirty (app w) \<and> \<not> ok, isSaving := False\<rparr>
      else app w)"
    and "rendered (saveCurrentNote c ok now w) =
     (if selectedNote c \<noteq> None \<and> isDirty c then (app w)\<lparr>isSaving := True\<rparr> else app w)"
proof -
  note b = app_flush_save_begin [OF assms, of c now]
  show "app (saveCurrentNote c ok now w) =
     (if selectedNote c \<noteq> None \<and> isDirty c
      then (app w)\<lparr>notes := saved_notes c ok now (notes (app w)),
             isDirty := isDirty (app w) \<and> \<not> ok, isSaving := False\<rparr>
      else app w)"
    by (cases ok) (auto simp: saveCurrentNote_def saveCurrentNote_end_eq b saved_notes_def
        split: option.splits)
  show "rendered (saveCurrentNote c ok now w) =
     (if selectedNote c \<noteq> None \<and> isDirty c then (app w)\<lparr>isSaving := True\<rparr> else app w)"
    by (auto simp: saveCurrentNote_def saveCurrentNote_end_eq b split: option.splits)
qed

section \<open>Selecting a note\<close>

text \<open>
  Claim C2, as amended. For every selection of a note of the list in a
  reachable state, when no other event arrives while the store is awaited:
  if a note with another identifier is selected and the draft is dirty, one
  update carrying the title and the content of the draft is sent for the
  previous note, and in the render shown while it is awaited (\<open>wm\<close>) the
  previous note is still selected, the draft is unchanged and \<open>isSaving\<close> is
  true. Only when the store has answered is the note loaded, together with
  the end of the save: on success the entries of the previous note in the
  list are replaced, on failure the error is logged and the list is
  unchanged. Otherwise no call is made to the store and the note is loaded
  in the first render. In both cases the draft then holds the title and the
  content of the selected note and \<open>isDirty\<close> is false.
\<close>

theorem select_saves_other_note_then_loads:
  assumes "reachable w" and "enabled (Select n ok now) w"
  shows "let wm = flush (handleSelectNote_begin (app w) n now w);
             w' = step (Select n ok now) w
         in w' = flush (handleSelectNote_end (app w) n ok now wm) \<and>
            selectedNote (app w') = Some n \<and> currentTitle (app w') = title n \<and>
            currentContent (app w') = content n \<and> \<not> isDirty (app w') \<and>
            (case selectedNote (app w) of
               None \<Rightarrow> wm = w' \<and> store_log w' = store_log w
             | Some sel \<Rightarrow>
                 if id_note sel \<noteq> id_note n \<and> isDirty (app w)
                 then app wm = (app w)\<lparr>isSaving := True\<rparr> \<and>
                      store_log wm = store_log w @
                        [UpdateDoc (id_note sel) (currentTitle (app w))
                           (currentContent (app w)) now] \<and>
                      app w' =
                        (app w)\<lparr>notes := (if ok then save_map (app w) now sel (notes (app w))
                                           else notes (app w)),
                                selectedNote := Some n, currentTitle := title n,
                                currentContent := content n,
                                isSaving := False, isDirty := False\<rparr> \<and>
                      store_log w' = store_log wm \<and>
                      console w' = (if ok then console w
                                    else console w @ [''Error saving note:''])
                 else wm = w' \<and> store_log w' = store_log w \<and>
                      notes (app w') = notes (app w))"
proof -
  from assms(1) have i: "inv w" by (rule reachable_inv)
  note f = inv_fields [OF i]
  from assms(2) have u: "currentUser (app w) \<noteq> None" and m: "n \<in> set (notes (app w))"
    by simp_all
  let ?wm = "flush (handleSelectNote_begin (app w) n now w)"
  have w0: "step (Select n ok now) w = flush (handleSelectNote_end (app w) n ok now ?wm)"
    by (simp add: handleSelectNote_def f(1))
  show ?thesis
  proof (cases "select_saves (app w) n")
    case False
    have wm: "?wm = flush (load_note n w)"
      using False by (simp add: handleSelectNote_begin_def)
    have w': "step (Select n ok now) w = flush (load_note n w)"
      using False by (simp add: handleSelectNote_eq f(1))
    have a: "app (flush (load_note n w)) =
        (app w)\<lparr>selectedNote := Some n, currentTitle := title n,
              currentContent := content n, isDirty := False\<rparr>"
      using f(5) m by (intro app_flush_load_note) (simp_all add: f(1))
    have l: "store_log (flush (load_note n w)) = store_log w"
      by (simp add: store_log_flush_same load_note_def f(1))
    from False show ?thesis
      unfolding Let_def w0 [symmetric] unfolding wm w'
      by (simp add: a l select_saves_def split: option.splits)
  next
    case True
    then obtain sel where sel: "selectedNote (app w) = Some sel"
      and ne: "id_note sel \<noteq> id_note n" and d: "isDirty (app w)"
      by (auto simp: select_saves_def split: option.splits)
    let ?s = "\<lambda>ok'. saveCurrentNote (app w) ok' now w"
    have wm: "?wm = flush (saveCurrentNote_begin (app w) now w)"
      using True by (simp add: handleSelectNote_begin_def)
    have sr: "app (flush (saveCurrentNote_begin (app w) now w)) = (app w)\<lparr>isSaving := True\<rparr>"
      "store_log (flush (saveCurrentNote_begin (app w) now w)) =
         store_log w @ [UpdateDoc (id_note sel) (currentTitle (app w))
                          (currentContent (app w)) now]"
      using inv_settled [OF i] sel d
      by (simp add: app_flush_save_begin)
        (simp add: store_log_flush_same f(1) saveCurrentNote_begin_def sel d)
    have w': "step (Select n ok now) w = flush (load_note n (?s ok))"
      using True by (simp add: handleSelectNote_eq f(1))
    have ids: "ids_ok (app (?s ok'))" for ok'
      using f(5) ids_ok_cong [of "app (?s ok')" "app w"] by simp
    have mem: "n \<in> set (notes (app (?s ok')))" for ok'
      using m select_saves_id [OF True] by (intro save_member) auto
    have cu: "currentUser (app (?s ok')) = currentUser (rendered (?s ok'))" for ok'
      by (simp add: rendered_saveCurrentNote)
    have a: "app (flush (load_note n (?s ok'))) =
        (app (?s ok'))\<lparr>selectedNote := Some n, currentTitle := title n,
              currentContent := content n, isDirty := False\<rparr>" for ok'
      using cu ids mem by (rule app_flush_load_note)
    have as: "app (?s ok') =
        (app w)\<lparr>notes := (if ok' then save_map (app w) now sel (notes (app w))
                           else notes (app w)),
                isDirty := isDirty (app w) \<and> \<not> ok', isSaving := False\<rparr>" for ok'
      using sel d
      by (simp add: app_saveCurrentNote(1) [OF inv_settled [OF i]] saved_notes_def)
    have af: "app (flush (load_note n (?s ok'))) =
        (app w)\<lparr>notes := (if ok' then save_map (app w) now sel (notes (app w))
                           else notes (app w)),
                selectedNote := Some n, currentTitle := title n,
                currentContent := content n,
                isSaving := False, isDirty := False\<rparr>" for ok'
      unfolding a as by simp
    have "store_log (flush (load_note n (?s ok'))) = store_log (?s ok')" for ok'
      using cu [of ok'] by (simp add: store_log_flush_same load_note_def)
    then have l: "store_log (flush (load_note n (?s ok'))) =
        store_log w @ [UpdateDoc (id_note sel) (currentTitle (app w))
                         (currentContent (app w)) now]" for ok'
      using sel d by (simp add: store_log_saveCurrentNote f(1))
    have k: "console (load_note n (?s ok')) =
        (if ok' then console w else console w @ [''Error saving note:''])" for ok'
      using sel d by (simp add: load_note_def console_saveCurrentNote)
    show ?thesis
      unfolding Let_def w0 [symmetric] unfolding wm w'
      using ne d by (simp add: sel af l k sr(1,2))
  qed
qed

theorem select_saves_other_note_then_loads_witness:
  "reachable ex_dirty \<and> enabled (Select note_a True 9) ex_dirty \<and>
   selectedNote (app ex_dirty) = Some note_b \<and> isDirty (app ex_dirty) \<and>
   (let wm = flush (handleSelectNote_begin (app ex_dirty) note_a 9 ex_dirty);
        w' = step (Select note_a True 9) ex_dirty
    in selectedNote (app wm) = Some note_b \<and> currentTitle (app wm) = ''B2'' \<and>
       isSaving (app wm) \<and>
       store_log wm = [GetDocs ''u1'', UpdateDoc ''n2'' ''B2'' ''y'' 9] \<and>
       selectedNote (app w') = Some note_a \<and> currentTitle (app w') = ''A'' \<and>
       currentContent (app w') = ''x'' \<and> \<not> isDirty (app w') \<and>
       store_log w' = [GetDocs ''u1'', UpdateDoc ''n2'' ''B2'' ''y'' 9] \<and>
       notes (app w') = [note_a, note_b\<lparr>title := ''B2'', lastModified := Some 9\<rparr>])"
proof -
  have e: "enabled (Select note_a True 9) ex_dirty" by code_simp
  have s: "selectedNote (app ex_dirty) = Some note_b" "isDirty (app ex_dirty)"
    "currentTitle (app ex_dirty) = ''B2''" "currentContent (app ex_dirty) = ''y''"
    "store_log ex_dirty = [GetDocs ''u1'']" "notes (app ex_dirty) = [note_a, note_b]"
    by code_simp+
  have sm: "save_map (app ex_dirty) 9 note_b [note_a, note_b] =
      [note_a, note_b\<lparr>title := ''B2'', lastModified := Some 9\<rparr>]"
    by (simp add: save_map_def updated_note_def s note_a_def note_b_def)
  have t: "title note_a = ''A''" "content note_a = ''x''" "id_note note_a = ''n1''"
    "id_note note_b = ''n2''"
    by (simp_all add: note_a_def note_b_def)
  from select_saves_other_note_then_loads [OF reachable_ex_dirty e]
  show ?thesis
    using reachable_ex_dirty e
    by (clarsimp simp add: Let_def s sm t simp del: step.simps enabled.simps flush_fields)
qed

text \<open>
  Claim C2 as stated fails when the note that is clicked is the selected one:
  line 159 asks for another identifier, so no save is sent although the draft
  is dirty, and the draft is loaded again from the list.
\<close>

theorem select_same_note_counterexample:
  "reachable ex_dirty \<and> enabled (Select note_b True 9) ex_dirty \<and>
   selectedNote (app ex_dirty) = Some note_b \<and> isDirty (app ex_dirty) \<and>
   currentTitle (app ex_dirty) = ''B2'' \<and>
   store_log (step (Select note_b True 9) ex_dirty) = store_log ex_dirty \<and>
   currentTitle (app (step (Select note_b True 9) ex_dirty)) = ''B'' \<and>
   notes (app (step (Select note_b True 9) ex_dirty)) = [note_a, note_b]"
proof -
  have "enabled (Select note_b True 9) ex_dirty" by code_simp
  moreover have "selectedNote (app ex_dirty) = Some note_b" by code_simp
  moreover have "isDirty (app ex_dirty)" by code_simp
  moreover have "currentTitle (app ex_dirty) = ''B2''" by code_simp
  moreover have "store_log (step (Select note_b True 9) ex_dirty) = store_log ex_dirty"
    by code_simp
  moreover have "currentTitle (app (step (Select note_b True 9) ex_dirty)) = ''B''"
    by code_simp
  moreover have "notes (app (step (Select note_b True 9) ex_dirty)) = [note_a, note_b]"
    by code_simp
  ultimately show ?thesis using reachable_ex_dirty by simp
qed

section \<open>Saving\<close>

lemma save_map_found:
  "n \<in> set (save_map c now sel ns) \<Longrightarrow> id_note n = id_note sel \<Longrightarrow>
   title n = currentTitle c \<and> content n = currentContent c"
  by (auto simp: save_map_def updated_note_def split: if_splits)

lemma find_note_save_map_None:
  "find_note i (save_map c now sel ns) = None \<longleftrightarrow> find_note i ns = None"
proof -
  have "id_note ` set (save_map c now sel ns) = id_note ` set ns"
    using arg_cong [OF ids_save_map [of c now sel ns], of set] by (simp only: set_map)
  then show ?thesis by (simp add: find_note_None)
qed

lemma saved_consistent:
  assumes "selection_ok a" and "selectedNote a = Some sel"
    and "currentTitle c = currentTitle a" "currentContent c = currentContent a"
  shows "selection_ok (a\<lparr>notes := save_map c now sel (notes a), isDirty := False, isSaving := b\<rparr>)"
    and "dirty_ok (a\<lparr>notes := save_map c now sel (notes a), isDirty := False, isSaving := b\<rparr>)"
proof -
  show "selection_ok (a\<lparr>notes := save_map c now sel (notes a), isDirty := False, isSaving := b\<rparr>)"
    using assms(1,2) by (simp add: selection_ok_def find_note_save_map_None)
  have "title orig = currentTitle a \<and> content orig = currentContent a"
    if "find_note (id_note sel) (save_map c now sel (notes a)) = Some orig" for orig
    using find_note_Some [OF that] save_map_found [of orig c now sel "notes a"] assms(3,4)
    by simp
  then show "dirty_ok (a\<lparr>notes := save_map c now sel (notes a), isDirty := False, isSaving := b\<rparr>)"
    using assms(2) by (auto simp: dirty_ok_def split: option.splits)
qed

lemma rendered_save_begin_flush:
  "settled w \<Longrightarrow> selectedNote c \<noteq> None \<Longrightarrow> isDirty c \<Longrightarrow>
   rendered (flush (saveCurrentNote_begin c now w)) = (app w)\<lparr>isSaving := True\<rparr>"
  by (simp add: app_flush_save_begin)

text \<open>
  What a save does in a state with nothing queued: the render while the
  update is awaited, and the renders after the store has answered.
\<close>

lemma save_result:
  assumes "inv w" and "selectedNote (app w) = Some sel" and "isDirty (app w)"
    and "same_draft c (app w)"
  shows "app (flush (saveCurrentNote_begin c now w)) = (app w)\<lparr>isSaving := True\<rparr>"
    and "store_log (flush (saveCurrentNote_begin c now w)) =
           store_log w @ [UpdateDoc (id_note sel) (currentTitle (app w))
                            (currentContent (app w)) now]"
    and "app (flush (saveCurrentNote c True now w)) =
           (app w)\<lparr>notes := save_map c now sel (notes (app w)),
                   isDirty := False, isSaving := False\<rparr>"
    and "console (flush (saveCurrentNote c True now w)) = console w"
    and "timer (flush (saveCurrentNote c True now w)) = None"
    and "store_log (flush (saveCurrentNote c ok now w)) =
           store_log (flush (saveCurrentNote_begin c now w))"
    and "app (flush (saveCurrentNote c False now w)) = (app w)\<lparr>isSaving := False\<rparr>"
    and "console (flush (saveCurrentNote c False now w)) = console w @ [''Error saving note:'']"
    and "timer (flush (saveCurrentNote c False now w)) =
           Some (1500, app (flush (saveCurrentNote c False now w)))"
proof -
  note i = assms(1)
  note f = inv_fields [OF i]
  have st: "settled w" using i by (rule inv_settled)
  from assms(2-4) have c: "selectedNote c = Some sel" "isDirty c"
    "currentTitle c = currentTitle (app w)" "currentContent c = currentContent (app w)"
    by (simp_all add: same_draft_def)
  let ?b = "flush (saveCurrentNote_begin c now w)"
  show ab: "app ?b = (app w)\<lparr>isSaving := True\<rparr>"
    using st c by (simp add: app_flush_save_begin)
  show lb: "store_log ?b = store_log w @ [UpdateDoc (id_note sel) (currentTitle (app w))
                            (currentContent (app w)) now]"
    using c by (simp add: store_log_flush_same f(1) saveCurrentNote_begin_def)
  have rb: "rendered ?b = (app w)\<lparr>isSaving := True\<rparr>" using ab by simp
  \<comment> \<open>success\<close>
  let ?s = "saveCurrentNote c True now w"
  have as: "app ?s = (app w)\<lparr>notes := save_map c now sel (notes (app w)),
      isDirty := False, isSaving := False\<rparr>"
    using c by (simp add: saveCurrentNote_def saveCurrentNote_end_eq ab)
  have rs: "rendered ?s = (app w)\<lparr>isSaving := True\<rparr>"
    using c by (simp add: saveCurrentNote_def saveCurrentNote_end_eq ab)
  have cs: "selection_ok (app ?s)" "dirty_ok (app ?s)"
    unfolding as using f(3) assms(2) c(3,4) by (rule saved_consistent)+
  have fs: "app (flush ?s) = app ?s"
    using cs by (intro app_flush_consistent) (simp_all add: as rs)
  show "app (flush ?s) = (app w)\<lparr>notes := save_map c now sel (notes (app w)),
      isDirty := False, isSaving := False\<rparr>"
    unfolding fs as ..
  have "inv (flush ?s)"
    using i assms(4) by (intro flush_inv pending_ok_saveCurrentNote)
  then show "timer (flush ?s) = None"
    by (rule inv_timer_None) (simp add: fs as)
  show "console (flush ?s) = console w"
    by (simp add: console_saveCurrentNote)
  \<comment> \<open>failure\<close>
  let ?e = "saveCurrentNote c False now w"
  have ae: "app ?e = (app w)\<lparr>isSaving := False\<rparr>"
    using c by (simp add: saveCurrentNote_def saveCurrentNote_end_eq ab)
  have re: "rendered ?e = (app w)\<lparr>isSaving := True\<rparr>"
    using c by (simp add: saveCurrentNote_def saveCurrentNote_end_eq ab)
  have "selection_ok (app ?e) = selection_ok (app w)"
    unfolding ae by (rule selection_ok_cong) simp_all
  moreover have "dirty_ok (app ?e) = dirty_ok (app w)"
    unfolding ae by (rule dirty_ok_cong) simp_all
  ultimately have ce: "selection_ok (app ?e)" "dirty_ok (app ?e)" using f(3,4) by simp_all
  have cue: "currentUser (app ?e) = currentUser (rendered ?e)" by (simp add: ae re)
  have fe: "app (flush ?e) = app ?e" using cue ce by (rule app_flush_consistent)
  show "app (flush ?e) = (app w)\<lparr>isSaving := False\<rparr>" unfolding fe ae ..
  have "timer (flush ?e) = autosave_effect (rendered ?e) (app ?e) (timer ?e)"
    using cue ce by (rule timer_flush_consistent)
  then show "timer (flush ?e) = Some (1500, app (flush ?e))"
    using assms(2,3)
    by (simp add: fe) (simp add: ae re autosave_effect_def autosave_effect_runs_def)
  show "console (flush ?e) = console w @ [''Error saving note:'']"
    using c by (simp add: console_saveCurrentNote)
  have "currentUser (app (saveCurrentNote c ok now w)) =
      currentUser (rendered (saveCurrentNote c ok now w))"
    using c by (cases ok) (simp_all add: as rs ae re)
  then have "store_log (flush (saveCurrentNote c ok now w)) =
      store_log (saveCurrentNote c ok now w)"
    by (rule store_log_flush_same)
  also have "\<dots> = store_log ?b"
    using c by (cases ok) (simp_all add: saveCurrentNote_def saveCurrentNote_end_eq)
  finally show "store_log (flush (saveCurrentNote c ok now w)) = store_log ?b" .
qed

text \<open>
  A pending timeout belongs to a dirty draft on a selected note, and its
  callback reads that draft.
\<close>

lemma pending_timer:
  assumes "inv w" and "timer w = Some (r, c)"
  shows "0 < r" and "r \<le> 1500" and "same_draft c (app w)"
    and "selectedNote (app w) \<noteq> None" and "isDirty (app w)" and "\<not> isSaving (app w)"
proof -
  note f = inv_fields [OF assms(1)]
  from f(6) assms(2)
  have "autosave_due (rendered w) \<and> same_draft c (rendered w) \<and> 0 < r \<and> r \<le> 1500"
    by (simp add: timer_ok_def)
  then show "0 < r" and "r \<le> 1500" and "same_draft c (app w)"
    and "selectedNote (app w) \<noteq> None" and "isDirty (app w)" and "\<not> isSaving (app w)"
    by (simp_all add: autosave_due_def f(1))
qed


lemma elapse_at_expiry:
  assumes "inv w" and "timer w = Some (r, c)" and "r \<le> d"
  shows "step (Elapse d answer) w =
     elapse_loop (Suc (d - r)) (d - r) answer 1
       (flush (saveCurrentNote c (fst (answer 0)) (snd (answer 0)) w))"
proof -
  let ?s = "flush (saveCurrentNote c (fst (answer 0)) (snd (answer 0)) w)"
  have eq: "flush (saveCurrentNote c (fst (answer 0)) (snd (answer 0)) (w\<lparr>timer := None\<rparr>)) = ?s"
    using fired_save(1) [OF assms(1,2)] by simp
  have i: "inv ?s"
    using fired_save(2) [OF assms(1,2), of "fst (answer 0)" "snd (answer 0)"] unfolding eq .
  have "0 < r" using assms(1,2) by (rule pending_timer)
  with assms(3) have lt: "d - r < d" by simp
  have "elapse d answer w = elapse_loop d (d - r) answer 1 ?s"
    using assms(2,3) by (simp add: elapse_def eq)
  also have "\<dots> = elapse_loop (Suc (d - r)) (d - r) answer 1 ?s"
    using i lt by (rule elapse_loop_fuel)
  finally show ?thesis unfolding step_Elapse [OF assms(1)] .
qed

lemma elapse_saved:
  assumes "inv w" and "timer w = Some (r, c)" and "r \<le> d" and "fst (answer 0)"
  shows "step (Elapse d answer) w = flush (saveCurrentNote c True (snd (answer 0)) w)"
proof -
  from pending_timer [OF assms(1,2)] obtain sel
    where s: "selectedNote (app w) = Some sel" "isDirty (app w)" "same_draft c (app w)"
    by auto
  have "timer (flush (saveCurrentNote c True (snd (answer 0)) w)) = None"
    using assms(1) s by (rule save_result)
  then show ?thesis
    unfolding elapse_at_expiry [OF assms(1-3)] using assms(4) by simp
qed

lemma elapse_failed:
  assumes "inv w" and "timer w = Some (r, c)" and "r \<le> d" and "\<not> fst (answer 0)"
    and "d < r + 1500"
  shows "step (Elapse d answer) w =
     (flush (saveCurrentNote c False (snd (answer 0)) w))
       \<lparr>timer := Some (1500 - (d - r),
                       app (flush (saveCurrentNote c False (snd (answer 0)) w)))\<rparr>"
proof -
  from pending_timer [OF assms(1,2)] obtain sel
    where s: "selectedNote (app w) = Some sel" "isDirty (app w)" "same_draft c (app w)"
    by auto
  let ?s = "flush (saveCurrentNote c False (snd (answer 0)) w)"
  have "timer ?s = Some (1500, app ?s)"
    using assms(1) s by (rule save_result)
  then show ?thesis
    unfolding elapse_at_expiry [OF assms(1-3)] using assms(3-5) by simp
qed

section \<open>Deleting a note\<close>

lemma reachable_ex_asked: "reachable ex_asked"
proof -
  have "enabled (RequestDelete ''n2'') ex_dirty" by code_simp
  with reachable_ex_dirty show ?thesis unfolding ex_asked_def by (rule reachable_step)
qed

lemma find_note_filter_other:
  "i \<noteq> d \<Longrightarrow> find_note i (filter (\<lambda>n. id_note n \<noteq> d) ns) = find_note i ns"
  by (induction ns) (auto simp: find_note_def)

lemma consistent_keeps:
  assumes "keeps_draft g"
  shows "selection_ok (g a) = selection_ok a" "dirty_ok (g a) = dirty_ok a"
proof -
  from assms have k: "notes (g a) = notes a" "selectedNote (g a) = selectedNote a"
    "currentTitle (g a) = currentTitle a" "currentContent (g a) = currentContent a"
    "isDirty (g a) = isDirty a"
    by (simp_all add: keeps_draft_def)
  show "selection_ok (g a) = selection_ok a" by (rule selection_ok_cong) (simp_all add: k)
  show "dirty_ok (g a) = dirty_ok a" by (rule dirty_ok_cong) (simp_all add: k)
qed

lemma step_keeps_draft:
  assumes "inv w" and "keeps_draft g" and "isSaving (g (app w)) = isSaving (app w)"
  shows "app (flush (queue g w)) = g (app w)" "timer (flush (queue g w)) = timer w"
    "store_log (flush (queue g w)) = store_log w" "console (flush (queue g w)) = console w"
proof -
  note f = inv_fields [OF assms(1)]
  from assms(2) have k: "currentUser (g (app w)) = currentUser (app w)"
    "selectedNote (g (app w)) = selectedNote (app w)"
    "currentTitle (g (app w)) = currentTitle (app w)"
    "currentContent (g (app w)) = currentContent (app w)"
    "isDirty (g (app w)) = isDirty (app w)"
    by (simp_all add: keeps_draft_def)
  have c: "selection_ok (app (queue g w))" "dirty_ok (app (queue g w))"
    using f(3,4) consistent_keeps [OF assms(2), of "app w"] by simp_all
  have cu: "currentUser (app (queue g w)) = currentUser (rendered (queue g w))"
    by (simp add: k f(1))
  show "app (flush (queue g w)) = g (app w)"
    using app_flush_consistent [OF cu c] by simp
  have "timer (flush (queue g w)) =
      autosave_effect (rendered (queue g w)) (app (queue g w)) (timer (queue g w))"
    using cu c by (rule timer_flush_consistent)
  then show "timer (flush (queue g w)) = timer w"
    by (simp add: autosave_effect_def autosave_effect_runs_def k f(1) assms(3))
  show "store_log (flush (queue g w)) = store_log w"
    using cu by (simp add: store_log_flush_same)
  show "console (flush (queue g w)) = console w" by simp
qed

lemma confirm_pending:
  assumes "inv w" and "noteToDelete (app w) = Some d"
  shows "app (handleConfirmDelete (app w) ok w) =
      (if \<not> ok then (app w)\<lparr>isSaving := False, showDeleteModal := False, noteToDelete := None\<rparr>
       else if (case selectedNote (app w) of None \<Rightarrow> False | Some sel \<Rightarrow> id_note sel = d)
       then (app w)\<lparr>notes := filter (\<lambda>n. id_note n \<noteq> d) (notes (app w)),
              selectedNote := None, currentTitle := [], currentContent := [],
              isDirty := False, isSaving := False, showDeleteModal := False,
              noteToDelete := None\<rparr>
       else (app w)\<lparr>notes := filter (\<lambda>n. id_note n \<noteq> d) (notes (app w)),
              isSaving := False, showDeleteModal := False, noteToDelete := None\<rparr>)"
    and "currentUser (rendered (handleConfirmDelete (app w) ok w)) = currentUser (app w)"
    and "store_log (handleConfirmDelete (app w) ok w) = store_log w @ [DeleteDoc d]"
    and "console (handleConfirmDelete (app w) ok w) =
      (if ok then console w else console w @ [''Error deleting note:''])"
proof -
  have st: "settled w" using assms(1) by (rule inv_settled)
  then have r: "rendered w = app w" by (simp add: settled_def)
  let ?w1 = "flush (call_store (DeleteDoc d) (queue (\<lambda>a. a\<lparr>isSaving := True\<rparr>) w))"
  have a1: "app ?w1 = (app w)\<lparr>isSaving := True\<rparr>"
    by (simp add: app_flush_same_deps r)
  have l1: "store_log ?w1 = store_log w @ [DeleteDoc d]"
    by (simp add: store_log_flush_same r)
  show "app (handleConfirmDelete (app w) ok w) =
      (if \<not> ok then (app w)\<lparr>isSaving := False, showDeleteModal := False, noteToDelete := None\<rparr>
       else if (case selectedNote (app w) of None \<Rightarrow> False | Some sel \<Rightarrow> id_note sel = d)
       then (app w)\<lparr>notes := filter (\<lambda>n. id_note n \<noteq> d) (notes (app w)),
              selectedNote := None, currentTitle := [], currentContent := [],
              isDirty := False, isSaving := False, showDeleteModal := False,
              noteToDelete := None\<rparr>
       else (app w)\<lparr>notes := filter (\<lambda>n. id_note n \<noteq> d) (notes (app w)),
              isSaving := False, showDeleteModal := False, noteToDelete := None\<rparr>)"
    by (simp add: handleConfirmDelete_eq assms(2) Let_def handleCloseDeleteModal_def a1)
  show "currentUser (rendered (handleConfirmDelete (app w) ok w)) = currentUser (app w)"
    by (simp add: handleConfirmDelete_eq assms(2) Let_def handleCloseDeleteModal_def a1)
  show "store_log (handleConfirmDelete (app w) ok w) = store_log w @ [DeleteDoc d]"
    by (simp add: handleConfirmDelete_eq assms(2) Let_def handleCloseDeleteModal_def l1)
  show "console (handleConfirmDelete (app w) ok w) =
      (if ok then console w else console w @ [''Error deleting note:''])"
    by (simp add: handleConfirmDelete_eq assms(2) Let_def handleCloseDeleteModal_def)
qed

lemma confirm_consistent:
  assumes "inv w" and "noteToDelete (app w) = Some d"
  shows "selection_ok (app (handleConfirmDelete (app w) ok w))"
    and "dirty_ok (app (handleConfirmDelete (app w) ok w))"
proof -
  note f = inv_fields [OF assms(1)]
  have *: "selection_ok (app (handleConfirmDelete (app w) ok w)) \<and>
      dirty_ok (app (handleConfirmDelete (app w) ok w))"
  proof (cases ok)
    case False
    have "keeps_draft (\<lambda>a. a\<lparr>isSaving := False, showDeleteModal := False, noteToDelete := None\<rparr>)"
      by (simp add: keeps_draft_def)
    from consistent_keeps [OF this, of "app w"] False f(3,4) show ?thesis
      by (simp add: confirm_pending(1) [OF assms])
  next
    case True
    show ?thesis
    proof (cases "selectedNote (app w)")
      case None
      with True f(3,4) show ?thesis
        by (simp add: confirm_pending(1) [OF assms] selection_ok_def dirty_ok_def)
    next
      case (Some sel)
      show ?thesis
      proof (cases "id_note sel = d")
        case same: True
        with True Some show ?thesis
          by (simp add: confirm_pending(1) [OF assms] selection_ok_def dirty_ok_def)
      next
        case False
        with True Some f(3,4) show ?thesis
          by (auto simp: confirm_pending(1) [OF assms] selection_ok_def dirty_ok_def
              find_note_filter_other split: option.splits)
      qed
    qed
  qed
  then show "selection_ok (app (handleConfirmDelete (app w) ok w))"
    and "dirty_ok (app (handleConfirmDelete (app w) ok w))" by simp_all
qed

text \<open>
  Claim C4, as amended. In a reachable state, asking to delete a note only
  records its identifier and opens the modal: the list, the selection, the
  draft, the store and the timeout are untouched. Cancelling clears the
  pending identifier and closes the modal, with no other effect. Confirming
  sends exactly one delete to the store. If it succeeds, the entries with that
  identifier are removed from the list and, if the selected note has that
  identifier, the draft is emptied, otherwise selection and draft are kept.
  If it fails, the error is logged and list, selection and draft are
  unchanged. In both cases the pending identifier is cleared.
\<close>

theorem delete_request_confirm_cancel:
  assumes "reachable w"
  shows "(let w' = step (RequestDelete d) w
          in app w' = (app w)\<lparr>noteToDelete := Some d, showDeleteModal := True\<rparr> \<and>
             store_log w' = store_log w \<and> console w' = console w \<and> timer w' = timer w) \<and>
         (let w' = step CancelDelete w
          in app w' = (app w)\<lparr>showDeleteModal := False, noteToDelete := None\<rparr> \<and>
             store_log w' = store_log w \<and> console w' = console w \<and> timer w' = timer w) \<and>
         (noteToDelete (app w) = Some d \<longrightarrow>
            (let w' = step (ConfirmDelete True) w
             in store_log w' = store_log w @ [DeleteDoc d] \<and> console w' = console w \<and>
                notes (app w') = filter (\<lambda>n. id_note n \<noteq> d) (notes (app w)) \<and>
                noteToDelete (app w') = None \<and> \<not> showDeleteModal (app w') \<and>
                (if (case selectedNote (app w) of None \<Rightarrow> False
                     | Some sel \<Rightarrow> id_note sel = d)
                 then empty_draft (app w')
                 else selectedNote (app w') = selectedNote (app w) \<and>
                      currentTitle (app w') = currentTitle (app w) \<and>
                      currentContent (app w') = currentContent (app w) \<and>
                      isDirty (app w') = isDirty (app w))) \<and>
            (let w' = step (ConfirmDelete False) w
             in store_log w' = store_log w @ [DeleteDoc d] \<and>
                console w' = console w @ [''Error deleting note:''] \<and>
                app w' = (app w)\<lparr>isSaving := False, showDeleteModal := False,
                                   noteToDelete := None\<rparr>))"
proof -
  from assms have i: "inv w" by (rule reachable_inv)
  note f = inv_fields [OF i]
  have req: "app (step (RequestDelete d) w) = (app w)\<lparr>noteToDelete := Some d, showDeleteModal := True\<rparr>"
    "store_log (step (RequestDelete d) w) = store_log w"
    "console (step (RequestDelete d) w) = console w"
    "timer (step (RequestDelete d) w) = timer w"
    using step_keeps_draft [OF i keeps_draft_modal(2) [where x = "Some d" and b = True]]
    by (simp_all add: handleDeleteNote_def)
  have can: "app (step CancelDelete w) = (app w)\<lparr>showDeleteModal := False, noteToDelete := None\<rparr>"
    "store_log (step CancelDelete w) = store_log w"
    "console (step CancelDelete w) = console w"
    "timer (step CancelDelete w) = timer w"
    using step_keeps_draft [OF i keeps_draft_modal(1) [where x = None and b = False]]
    by (simp_all add: handleCloseDeleteModal_def)
  have con: "store_log (step (ConfirmDelete ok) w) = store_log w @ [DeleteDoc d] \<and>
      console (step (ConfirmDelete ok) w) =
        (if ok then console w else console w @ [''Error deleting note:'']) \<and>
      app (step (ConfirmDelete ok) w) = app (handleConfirmDelete (app w) ok w)"
    if nd: "noteToDelete (app w) = Some d" for ok
  proof -
    let ?h = "handleConfirmDelete (app w) ok w"
    note p = confirm_pending [OF i nd, of ok]
    have cu: "currentUser (app ?h) = currentUser (rendered ?h)"
      by (simp add: p(2)) (simp add: p(1))
    have "app (flush ?h) = app ?h"
      using cu confirm_consistent [OF i nd, of ok] by (rule app_flush_consistent)
    moreover have "store_log (flush ?h) = store_log ?h" using cu by (rule store_log_flush_same)
    ultimately show ?thesis by (simp add: f(1) p(3,4))
  qed
  show ?thesis
    unfolding Let_def
    using req can con [of True] con [of False]
    by (simp add: confirm_pending(1) [OF i] empty_draft_def del: step.simps)
qed


theorem delete_request_confirm_cancel_witness:
  "reachable ex_asked \<and> noteToDelete (app ex_asked) = Some ''n2'' \<and>
   selectedNote (app ex_asked) = Some note_b \<and> notes (app ex_asked) = [note_a, note_b] \<and>
   noteToDelete (app (step (RequestDelete ''n1'') ex_asked)) = Some ''n1'' \<and>
   notes (app (step (RequestDelete ''n1'') ex_asked)) = [note_a, note_b] \<and>
   store_log (step (RequestDelete ''n1'') ex_asked) = [GetDocs ''u1''] \<and>
   noteToDelete (app (step CancelDelete ex_asked)) = None \<and>
   notes (app (step CancelDelete ex_asked)) = [note_a, note_b] \<and>
   store_log (step CancelDelete ex_asked) = [GetDocs ''u1''] \<and>
   store_log (step (ConfirmDelete True) ex_asked) = [GetDocs ''u1'', DeleteDoc ''n2''] \<and>
   notes (app (step (ConfirmDelete True) ex_asked)) = [note_a] \<and>
   empty_draft (app (step (ConfirmDelete True) ex_asked))"
proof -
  have s: "noteToDelete (app ex_asked) = Some ''n2''" "selectedNote (app ex_asked) = Some note_b"
    "notes (app ex_asked) = [note_a, note_b]" "store_log ex_asked = [GetDocs ''u1'']"
    by code_simp+
  have t: "id_note note_b = ''n2''" "id_note note_a = ''n1''"
    by (simp_all add: note_a_def note_b_def)
  from delete_request_confirm_cancel [OF reachable_ex_asked, of "''n1''"]
    delete_request_confirm_cancel [OF reachable_ex_asked, of "''n2''"]
  show ?thesis
    using reachable_ex_asked
    by (clarsimp simp add: Let_def s t simp del: step.simps)
qed

text \<open>
  Claim C4 as stated has the confirmation remove the entry in every case.
  When \<open>deleteDoc\<close> throws, line 210 is skipped: the delete was sent, but the
  entry stays in the list and the note stays selected.
\<close>

theorem confirm_delete_store_failure_counterexample:
  "reachable ex_asked \<and> noteToDelete (app ex_asked) = Some ''n2'' \<and>
   selectedNote (app ex_asked) = Some note_b \<and>
   store_log (step (ConfirmDelete False) ex_asked) = [GetDocs ''u1'', DeleteDoc ''n2''] \<and>
   notes (app (step (ConfirmDelete False) ex_asked)) = [note_a, note_b] \<and>
   selectedNote (app (step (ConfirmDelete False) ex_asked)) = Some note_b \<and>
   currentTitle (app (step (ConfirmDelete False) ex_asked)) = ''B2''"
proof -
  have "noteToDelete (app ex_asked) = Some ''n2''" by code_simp
  moreover have "selectedNote (app ex_asked) = Some note_b" by code_simp
  moreover have "store_log (step (ConfirmDelete False) ex_asked) =
      [GetDocs ''u1'', DeleteDoc ''n2'']" by code_simp
  moreover have "notes (app (step (ConfirmDelete False) ex_asked)) = [note_a, note_b]"
    by code_simp
  moreover have "selectedNote (app (step (ConfirmDelete False) ex_asked)) = Some note_b"
    by code_simp
  moreover have "currentTitle (app (step (ConfirmDelete False) ex_asked)) = ''B2''"
    by code_simp
  ultimately show ?thesis using reachable_ex_asked by simp
qed

section \<open>Adding a note\<close>

lemma ids_saved_notes [simp]: "map id_note (saved_notes c ok now ns) = map id_note ns"
  by (simp add: saved_notes_def split: option.splits)

lemma find_note_saved_notes_None:
  "find_note i (saved_notes c ok now ns) = None \<longleftrightarrow> find_note i ns = None"
  by (simp add: saved_notes_def find_note_save_map_None split: option.splits)

lemma after_save_consistent:
  assumes "inv w" and "same_draft c (app w)"
  shows "selection_ok (app (saveCurrentNote c ok now w))"
    and "dirty_ok (app (saveCurrentNote c ok now w))"
proof -
  note f = inv_fields [OF assms(1)]
  have st: "settled w" using assms(1) by (rule inv_settled)
  show "selection_ok (app (saveCurrentNote c ok now w))"
    using f(3)
    by (auto simp: app_saveCurrentNote(1) [OF st] selection_ok_def find_note_saved_notes_None
        split: option.splits)
  show "dirty_ok (app (saveCurrentNote c ok now w))"
  proof (cases "selectedNote c \<noteq> None \<and> isDirty c \<and> ok")
    case False
    have "dirty_ok (app (saveCurrentNote c ok now w)) = dirty_ok (app w)"
      using False
      by (intro dirty_ok_cong) (auto simp: app_saveCurrentNote(1) [OF st] saved_notes_def
          split: option.splits)
    with f(4) show ?thesis by simp
  next
    case True
    then obtain sel where sel: "selectedNote c = Some sel" by auto
    with assms(2) have s: "selectedNote (app w) = Some sel"
      "currentTitle c = currentTitle (app w)" "currentContent c = currentContent (app w)"
      by (simp_all add: same_draft_def)
    from True sel have "app (saveCurrentNote c ok now w) =
        (app w)\<lparr>notes := save_map c now sel (notes (app w)), isDirty := False, isSaving := False\<rparr>"
      by (simp add: app_saveCurrentNote(1) [OF st] saved_notes_def)
    then show ?thesis using saved_consistent(2) [OF f(3) s] by simp
  qed
qed


lemma store_log_saveCurrentNote_calls:
  "settled w \<Longrightarrow> store_log (saveCurrentNote c ok now w) = store_log w @ save_calls c now"
  by (simp add: store_log_saveCurrentNote settled_def save_calls_def split: option.splits)

lemma add_awaits_result:
  assumes "inv w"
  shows "app (add_awaits (app w) ok1 t1 k w) =
      (app w)\<lparr>notes := saved_notes (app w) ok1 t1 (notes (app w)),
              isDirty := isDirty (app w) \<and> \<not> ok1, isSaving := True\<rparr>"
    and "store_log (add_awaits (app w) ok1 t1 k w) = store_log w @ save_calls (app w) t1 @ [k]"
proof -
  note f = inv_fields [OF assms]
  have st: "settled w" using assms by (rule inv_settled)
  let ?c = "app w"
  let ?w1 = "if selectedNote ?c \<noteq> None \<and> isDirty ?c then saveCurrentNote ?c ok1 t1 w else w"
  have nd: "\<not> isDirty ?c" if "selectedNote ?c = None"
    using that f(4) by (simp add: dirty_ok_def)
  have a1: "(app ?w1)\<lparr>isSaving := True\<rparr> = ?c\<lparr>notes := saved_notes ?c ok1 t1 (notes ?c),
      isDirty := isDirty ?c \<and> \<not> ok1, isSaving := True\<rparr>"
  proof (cases "selectedNote ?c \<noteq> None \<and> isDirty ?c")
    case True
    then show ?thesis by (simp add: app_saveCurrentNote(1) [OF st])
  next
    case False
    then have "saved_notes ?c ok1 t1 (notes ?c) = notes ?c" "\<not> isDirty ?c"
      using nd by (auto simp: saved_notes_def split: option.splits)
    with False show ?thesis by simp
  qed
  have cu: "currentUser (rendered ?w1) = currentUser ?c"
    by (simp add: rendered_saveCurrentNote f(1))
  have c1: "selection_ok (app ?w1)" "dirty_ok (app ?w1)"
    using after_save_consistent [OF assms same_draft_refl, of ok1 t1] f(3,4) by simp_all
  let ?q = "call_store k (queue (\<lambda>a. a\<lparr>isSaving := True\<rparr>) ?w1)"
  have cq: "selection_ok (app ?q)" "dirty_ok (app ?q)"
    using c1 consistent_keeps [OF keeps_draft_isSaving, of True "app ?w1"] by simp_all
  have cuq: "currentUser (app ?q) = currentUser (rendered ?q)"
    using cu by simp
  have "app (flush ?q) = app ?q" using cuq cq by (rule app_flush_consistent)
  also have "\<dots> = (app ?w1)\<lparr>isSaving := True\<rparr>" by simp
  finally show "app (add_awaits (app w) ok1 t1 k w) =
      (app w)\<lparr>notes := saved_notes (app w) ok1 t1 (notes (app w)),
              isDirty := isDirty (app w) \<and> \<not> ok1, isSaving := True\<rparr>"
    unfolding add_awaits_def a1 .
  have "store_log (flush ?q) = store_log ?q" using cuq by (rule store_log_flush_same)
  then show "store_log (add_awaits (app w) ok1 t1 k w) = store_log w @ save_calls (app w) t1 @ [k]"
    unfolding add_awaits_def
    by (simp add: store_log_saveCurrentNote_calls [OF st] save_calls_def split: option.splits)
qed

lemma cons_consistent:
  assumes "selection_ok a" "dirty_ok a"
    and "\<And>sel. selectedNote a = Some sel \<Longrightarrow> id_note sel \<noteq> id_note n"
  shows "selection_ok (a\<lparr>notes := n # notes a, isSaving := b\<rparr>)"
    and "dirty_ok (a\<lparr>notes := n # notes a, isSaving := b\<rparr>)"
  using assms
  by (auto simp: selection_ok_def dirty_ok_def find_note_def split: option.splits)

lemma selected_id_in_list:
  "selection_ok a \<Longrightarrow> selectedNote a = Some sel \<Longrightarrow> id_note sel \<in> id_note ` set (notes a)"
  by (auto simp: selection_ok_def find_note_None)


lemma saved_notes_cons_other:
  "(\<And>sel. selectedNote c = Some sel \<Longrightarrow> id_note sel \<noteq> id_note n) \<Longrightarrow>
   saved_notes c ok now (n # ns) = n # saved_notes c ok now ns"
  by (auto simp: saved_notes_def save_map_def split: option.splits)

lemma saved_notes_clean:
  "\<not> (selectedNote c \<noteq> None \<and> isDirty c) \<Longrightarrow> saved_notes c ok now ns = ns"
  "\<not> (selectedNote c \<noteq> None \<and> isDirty c) \<Longrightarrow> save_calls c now = []"
  by (auto simp: saved_notes_def save_calls_def split: option.splits)

lemma save_end_app:
  "app (saveCurrentNote_end c ok now w) =
     (if selectedNote c \<noteq> None \<and> isDirty c
      then (app w)\<lparr>notes := saved_notes c ok now (notes (app w)),
             isDirty := isDirty (app w) \<and> \<not> ok, isSaving := False\<rparr>
      else app w)"
  "rendered (saveCurrentNote_end c ok now w) = rendered w"
  "store_log (saveCurrentNote_end c ok now w) = store_log w"
  by (cases ok; auto simp: saveCurrentNote_end_eq saved_notes_def split: option.splits)+

lemma add_new_result:
  assumes "inv w" and "currentUser (app w) = Some uid"
    and "docId \<notin> id_note ` set (notes (app w))"
  shows "app (step (AddNew ok1 t1 tc tm (Some docId) ok2 t2) w) =
      (app w)\<lparr>notes := newNoteData tc tm uid docId #
                 saved_notes (app w) ok2 t2 (saved_notes (app w) ok1 t1 (notes (app w))),
              selectedNote := Some (newNoteData tc tm uid docId),
              currentTitle := ''Untitled Note'', currentContent := [],
              isDirty := False, isSaving := False\<rparr>"
    and "store_log (step (AddNew ok1 t1 tc tm (Some docId) ok2 t2) w) =
      store_log w @ save_calls (app w) t1 @ [AddDoc ''Untitled Note'' [] tc tm uid]
        @ save_calls (app w) t2"
proof -
  note f = inv_fields [OF assms(1)]
  let ?a = "app w"
  let ?n = "newNoteData tc tm uid docId"
  let ?k = "AddDoc ''Untitled Note'' [] tc tm uid"
  let ?w2 = "add_awaits ?a ok1 t1 ?k w"
  let ?w3 = "queue (\<lambda>a. a\<lparr>notes := ?n # notes a\<rparr>) ?w2"
  have n: "id_note ?n = docId" "title ?n = ''Untitled Note''" "content ?n = []"
    by (simp_all add: newNoteData_def)
  have i2: "inv ?w2" using inv_add_awaits [OF assms(1), of ok1 t1 ?k] by (simp add: f(1))
  note f2 = inv_fields [OF i2]
  note a2 = add_awaits_result(1) [OF assms(1), of ok1 t1 ?k]
  note l2 = add_awaits_result(2) [OF assms(1), of ok1 t1 ?k]
  have other: "id_note sel \<noteq> id_note ?n" if "selectedNote ?a = Some sel" for sel
    using selected_id_in_list [OF f(3) that] assms(3) by (auto simp: n)
  have ss: "select_saves ?a ?n \<longleftrightarrow> selectedNote ?a \<noteq> None \<and> isDirty ?a"
    using other by (auto simp: select_saves_def split: option.splits)
  have st: "step (AddNew ok1 t1 tc tm (Some docId) ok2 t2) w =
      flush (handleSelectNote_end ?a ?n ok2 t2
        (flush (queue (\<lambda>a. a\<lparr>isSaving := False\<rparr>) (handleSelectNote_begin ?a ?n t2 ?w3))))"
    by (simp add: handleAddNewNote_eq f(1) assms(2))
  have ids3: "distinct (map id_note (?n # saved_notes ?a ok1 t1 (notes ?a)))"
    using f(5) assms(3) by (simp add: ids_ok_def n)
  show "app (step (AddNew ok1 t1 tc tm (Some docId) ok2 t2) w) =
      (app w)\<lparr>notes := ?n # saved_notes (app w) ok2 t2 (saved_notes (app w) ok1 t1 (notes (app w))),
              selectedNote := Some ?n, currentTitle := ''Untitled Note'', currentContent := [],
              isDirty := False, isSaving := False\<rparr>"
    and "store_log (step (AddNew ok1 t1 tc tm (Some docId) ok2 t2) w) =
      store_log w @ save_calls (app w) t1 @ [?k] @ save_calls (app w) t2"
  proof (atomize (full), cases "selectedNote ?a \<noteq> None \<and> isDirty ?a")
    case True
    then obtain sel where sel: "selectedNote ?a = Some sel" by auto
    let ?p5 = "queue (\<lambda>a. a\<lparr>isSaving := False\<rparr>) (saveCurrentNote_begin ?a t2 ?w3)"
    have ap5: "app ?p5 = (app ?w2)\<lparr>notes := ?n # notes (app ?w2), isSaving := False\<rparr>"
      using True by (simp add: saveCurrentNote_begin_def sel)
    have rp5: "rendered ?p5 = app ?w2" by (simp add: f2(1))
    have lp5: "store_log (saveCurrentNote_begin ?a t2 ?w3) = store_log ?w2 @ save_calls ?a t2"
      using True by (simp add: saveCurrentNote_begin_def sel save_calls_def)
    have sel2: "selectedNote (app ?w2) = selectedNote ?a" by (simp add: a2)
    have c5: "selection_ok (app ?p5)" "dirty_ok (app ?p5)"
      unfolding ap5 using f2(3,4) other by (intro cons_consistent; simp add: sel2)+
    have cu5: "currentUser (app ?p5) = currentUser (rendered ?p5)" by (simp add: f2(1))
    have "app (flush ?p5) = app ?p5" using cu5 c5 by (rule app_flush_consistent)
    then have a5: "app (flush ?p5) =
        (app ?w2)\<lparr>notes := ?n # notes (app ?w2), isSaving := False\<rparr>"
      unfolding ap5 .
    have l5: "store_log (flush ?p5) = store_log ?p5" using cu5 by (rule store_log_flush_same)
    let ?x = "saveCurrentNote_end ?a ok2 t2 (flush ?p5)"
    have ax: "app ?x = ?a\<lparr>notes := ?n # saved_notes ?a ok2 t2 (saved_notes ?a ok1 t1 (notes ?a)),
        isDirty := isDirty ?a \<and> \<not> ok1 \<and> \<not> ok2, isSaving := False\<rparr>"
      using True other by (simp add: save_end_app a5 a2 saved_notes_cons_other)
    have cux: "currentUser (app ?x) = currentUser (rendered ?x)"
      by (simp add: save_end_app(2) f2(1))
    have idx: "ids_ok (app ?x)" using ids3 by (simp add: ax ids_ok_def)
    have mx: "?n \<in> set (notes (app ?x))" by (simp add: ax)
    have fin: "step (AddNew ok1 t1 tc tm (Some docId) ok2 t2) w = flush (load_note ?n ?x)"
    proof -
      from True ss have "select_saves ?a ?n" by blast
      then show ?thesis
        unfolding st by (simp add: handleSelectNote_end_def handleSelectNote_begin_def)
    qed
    have "app (flush (load_note ?n ?x)) =
        (app ?x)\<lparr>selectedNote := Some ?n, currentTitle := title ?n,
              currentContent := content ?n, isDirty := False\<rparr>"
      using cux idx mx by (rule app_flush_load_note)
    moreover have "store_log (flush (load_note ?n ?x)) = store_log ?x"
      using cux by (simp add: store_log_flush_same load_note_def)
    ultimately show "app (step (AddNew ok1 t1 tc tm (Some docId) ok2 t2) w) =
      (app w)\<lparr>notes := ?n # saved_notes (app w) ok2 t2 (saved_notes (app w) ok1 t1 (notes (app w))),
              selectedNote := Some ?n, currentTitle := ''Untitled Note'', currentContent := [],
              isDirty := False, isSaving := False\<rparr> \<and>
      store_log (step (AddNew ok1 t1 tc tm (Some docId) ok2 t2) w) =
      store_log w @ save_calls (app w) t1 @ [?k] @ save_calls (app w) t2"
      unfolding fin by (simp add: ax n save_end_app(3) l5 lp5 l2)
  next
    case False
    let ?p5 = "queue (\<lambda>a. a\<lparr>isSaving := False\<rparr>) (load_note ?n ?w3)"
    let ?b = "(app ?w2)\<lparr>notes := ?n # notes (app ?w2), isSaving := False\<rparr>"
    have ap5: "app ?p5 = ?b\<lparr>selectedNote := Some ?n, currentTitle := title ?n,
        currentContent := content ?n, isDirty := False\<rparr>"
      by (simp add: load_note_def)
    have rp5: "rendered ?p5 = app ?w2" by (simp add: f2(1) load_note_def)
    have "ids_ok ?b" using ids3 by (simp add: ids_ok_def a2)
    moreover have "?n \<in> set (notes ?b)" by simp
    ultimately have c5: "selection_ok (app ?p5)" "dirty_ok (app ?p5)"
      unfolding ap5 by (rule loaded_consistent)+
    have cu5: "currentUser (app ?p5) = currentUser (rendered ?p5)"
      by (simp add: f2(1) load_note_def)
    have "app (flush ?p5) = app ?p5" using cu5 c5 by (rule app_flush_consistent)
    then have a5: "app (flush ?p5) = ?b\<lparr>selectedNote := Some ?n, currentTitle := title ?n,
        currentContent := content ?n, isDirty := False\<rparr>"
      unfolding ap5 .
    have "store_log (flush ?p5) = store_log ?p5" using cu5 by (rule store_log_flush_same)
    then have l5: "store_log (flush ?p5) = store_log ?w2" by (simp add: load_note_def)
    have fin: "step (AddNew ok1 t1 tc tm (Some docId) ok2 t2) w = flush ?p5"
    proof -
      from False ss have "\<not> select_saves ?a ?n" by blast
      then show ?thesis
        unfolding st by (simp add: handleSelectNote_end_def handleSelectNote_begin_def)
    qed
    show "app (step (AddNew ok1 t1 tc tm (Some docId) ok2 t2) w) =
      (app w)\<lparr>notes := ?n # saved_notes (app w) ok2 t2 (saved_notes (app w) ok1 t1 (notes (app w))),
              selectedNote := Some ?n, currentTitle := ''Untitled Note'', currentContent := [],
              isDirty := False, isSaving := False\<rparr> \<and>
      store_log (step (AddNew ok1 t1 tc tm (Some docId) ok2 t2) w) =
      store_log w @ save_calls (app w) t1 @ [?k] @ save_calls (app w) t2"
      unfolding fin using False
      by (simp add: a5 l5 l2 a2 n saved_notes_clean)
  qed
qed


lemma add_new_failed:
  assumes "inv w" and "currentUser (app w) = Some uid"
  shows "app (step (AddNew ok1 t1 tc tm None ok2 t2) w) =
      (app w)\<lparr>notes := saved_notes (app w) ok1 t1 (notes (app w)),
              isDirty := isDirty (app w) \<and> \<not> ok1, isSaving := False\<rparr>"
    and "store_log (step (AddNew ok1 t1 tc tm None ok2 t2) w) =
      store_log w @ save_calls (app w) t1 @ [AddDoc ''Untitled Note'' [] tc tm uid]"
    and "console (step (AddNew ok1 t1 tc tm None ok2 t2) w) =
      console (saveCurrentNote (app w) ok1 t1 w) @ [''Error adding new note: '']"
proof -
  note f = inv_fields [OF assms(1)]
  let ?k = "AddDoc ''Untitled Note'' [] tc tm uid"
  let ?w2 = "add_awaits (app w) ok1 t1 ?k w"
  have i2: "inv ?w2" using inv_add_awaits [OF assms(1), of ok1 t1 ?k] by (simp add: f(1))
  note f2 = inv_fields [OF i2]
  note a2 = add_awaits_result(1) [OF assms(1), of ok1 t1 ?k]
  note l2 = add_awaits_result(2) [OF assms(1), of ok1 t1 ?k]
  let ?p = "queue (\<lambda>a. a\<lparr>isSaving := False\<rparr>) (console_error ''Error adding new note: '' ?w2)"
  have st: "step (AddNew ok1 t1 tc tm None ok2 t2) w = flush ?p"
    by (simp add: handleAddNewNote_eq f(1) assms(2))
  have c: "selection_ok (app ?p)" "dirty_ok (app ?p)"
    using f2(3,4) consistent_keeps [OF keeps_draft_isSaving, of False "app ?w2"] by simp_all
  have cu: "currentUser (app ?p) = currentUser (rendered ?p)" by (simp add: f2(1))
  have "app (flush ?p) = app ?p" using cu c by (rule app_flush_consistent)
  then show "app (step (AddNew ok1 t1 tc tm None ok2 t2) w) =
      (app w)\<lparr>notes := saved_notes (app w) ok1 t1 (notes (app w)),
              isDirty := isDirty (app w) \<and> \<not> ok1, isSaving := False\<rparr>"
    unfolding st by (simp add: a2)
  have "store_log (flush ?p) = store_log ?p" using cu by (rule store_log_flush_same)
  then show "store_log (step (AddNew ok1 t1 tc tm None ok2 t2) w) =
      store_log w @ save_calls (app w) t1 @ [?k]"
    unfolding st by (simp add: l2)
  show "console (step (AddNew ok1 t1 tc tm None ok2 t2) w) =
      console (saveCurrentNote (app w) ok1 t1 w) @ [''Error adding new note: '']"
    unfolding st
    by (simp add: add_awaits_def console_saveCurrentNote)
qed





section \<open>The timestamps of a new note\<close>

text \<open>
  Claim C9, as amended. The created timestamp of a new note is the reading of
  \<open>Timestamp.now()\<close> in line 181 and its last-modified timestamp is the
  reading in line 182, in the document sent to the store as in the entry put
  in the list. The two timestamps are equal if and only if the two readings
  are.
\<close>

theorem new_note_timestamps:
  assumes "reachable w" and "enabled (AddNew ok1 t1 tc tm (Some docId) ok2 t2) w"
    and "currentUser (app w) = Some uid"
  shows "let w' = step (AddNew ok1 t1 tc tm (Some docId) ok2 t2) w;
             new = newNoteData tc tm uid docId
         in hd (notes (app w')) = new \<and> selectedNote (app w') = Some new \<and>
            AddDoc ''Untitled Note'' [] tc tm uid \<in> set (store_log w') \<and>
            createdAt new = Some tc \<and> lastModified new = Some tm \<and>
            (createdAt new = lastModified new \<longleftrightarrow> tc = tm)"
proof -
  from assms(1) have i: "inv w" by (rule reachable_inv)
  from assms(2) have fresh: "docId \<notin> id_note ` set (notes (app w))" by simp
  show ?thesis
    unfolding Let_def
    by (simp add: add_new_result [OF i assms(3) fresh] del: step.simps)
      (simp add: newNoteData_def)
qed

theorem new_note_timestamps_witness:
  "reachable ex_clean \<and> enabled (AddNew True 10 11 11 (Some ''n3'') True 13) ex_clean \<and>
   currentUser (app ex_clean) = Some ''u1'' \<and>
   (let w' = step (AddNew True 10 11 11 (Some ''n3'') True 13) ex_clean
    in createdAt (hd (notes (app w'))) = Some 11 \<and>
       lastModified (hd (notes (app w'))) = Some 11 \<and>
       AddDoc ''Untitled Note'' [] 11 11 ''u1'' \<in> set (store_log w'))"
proof -
  have e: "enabled (AddNew True 10 11 11 (Some ''n3'') True 13) ex_clean" by code_simp
  have u: "currentUser (app ex_clean) = Some ''u1''" by code_simp
  from new_note_timestamps [OF reachable_ex_clean e u]
  show ?thesis
    using reachable_ex_clean e u
    by (clarsimp simp add: Let_def simp del: step.simps enabled.simps)
qed

text \<open>
  Claim C9 as stated has the two timestamps equal. They come from two calls of
  \<open>Timestamp.now()\<close>; when the clock advances between them, they differ.
\<close>

theorem new_note_timestamps_differ_counterexample:
  "reachable ex_clean \<and> enabled (AddNew True 10 11 12 (Some ''n3'') True 13) ex_clean \<and>
   id_note (hd (notes (app (step (AddNew True 10 11 12 (Some ''n3'') True 13) ex_clean)))) =
     ''n3'' \<and>
   createdAt (hd (notes (app (step (AddNew True 10 11 12 (Some ''n3'') True 13) ex_clean)))) =
     Some 11 \<and>
   lastModified (hd (notes (app (step (AddNew True 10 11 12 (Some ''n3'') True 13) ex_clean)))) =
     Some 12 \<and>
   store_log (step (AddNew True 10 11 12 (Some ''n3'') True 13) ex_clean) =
     [GetDocs ''u1'', AddDoc ''Untitled Note'' [] 11 12 ''u1'']"
proof -
  have "enabled (AddNew True 10 11 12 (Some ''n3'') True 13) ex_clean" by code_simp
  moreover have
    "id_note (hd (notes (app (step (AddNew True 10 11 12 (Some ''n3'') True 13) ex_clean)))) =
     ''n3''" by code_simp
  moreover have
    "createdAt (hd (notes (app (step (AddNew True 10 11 12 (Some ''n3'') True 13) ex_clean)))) =
     Some 11" by code_simp
  moreover have
    "lastModified (hd (notes (app (step (AddNew True 10 11 12 (Some ''n3'') True 13) ex_clean)))) =
     Some 12" by code_simp
  moreover have "store_log (step (AddNew True 10 11 12 (Some ''n3'') True 13) ex_clean) =
     [GetDocs ''u1'', AddDoc ''Untitled Note'' [] 11 12 ''u1'']" by code_simp
  ultimately show ?thesis using reachable_ex_clean by simp
qed

section \<open>The debounce window of the auto-save\<close>





lemma elapse_one_save:
  assumes "inv w" and "timer w = Some (r, c)" and "selectedNote (app w) = Some sel"
    and "r \<le> d" and "fst (answer 0) \<or> d < r + 1500"
  shows "store_log (step (Elapse d answer) w) =
     store_log w @ [UpdateDoc (id_note sel) (currentTitle (app w)) (currentContent (app w))
                      (snd (answer 0))]"
proof -
  note p = pending_timer [OF assms(1,2)]
  note s = save_result [OF assms(1,3) p(5) p(3)]
  show ?thesis
  proof (cases "fst (answer 0)")
    case True
    have "step (Elapse d answer) w = flush (saveCurrentNote c True (snd (answer 0)) w)"
      using assms(1,2,4) True by (rule elapse_saved)
    then show ?thesis by (simp only: s(6) s(2))
  next
    case False
    with assms(5) have "d < r + 1500" by simp
    with assms(1,2,4) False
    have "step (Elapse d answer) w =
        (flush (saveCurrentNote c False (snd (answer 0)) w))
          \<lparr>timer := Some (1500 - (d - r),
                          app (flush (saveCurrentNote c False (snd (answer 0)) w)))\<rparr>"
      by (rule elapse_failed)
    then show ?thesis
      using s(6) [of False "snd (answer 0)"] s(2) [of "snd (answer 0)"]
      by (simp del: step.simps)
  qed
qed






section \<open>The outcome of a save\<close>

lemma elapse_loop_shift:
  "elapse_loop k d answer (Suc i) w = elapse_loop k d (\<lambda>j. answer (Suc j)) i w"
  by (induction k arbitrary: d i w) (simp_all split: option.splits)

lemma elapse_exact:
  assumes "inv w" and "timer w = Some (r, c)"
  shows "step (Elapse r answer) w =
     flush (saveCurrentNote c (fst (answer 0)) (snd (answer 0)) w)"
proof (cases "fst (answer 0)")
  case True
  with elapse_saved [OF assms order_refl, of answer] show ?thesis by simp
next
  case False
  from pending_timer [OF assms] obtain sel
    where s: "selectedNote (app w) = Some sel" "isDirty (app w)" "same_draft c (app w)"
    by auto
  let ?s = "flush (saveCurrentNote c False (snd (answer 0)) w)"
  have ts: "timer ?s = Some (1500, app ?s)" using assms(1) s by (rule save_result)
  have "step (Elapse r answer) w = ?s\<lparr>timer := Some (1500 - (r - r), app ?s)\<rparr>"
    using assms order_refl False by (rule elapse_failed) simp
  also have "\<dots> = ?s\<lparr>timer := timer ?s\<rparr>" unfolding ts by simp
  also have "\<dots> = ?s" by simp
  finally show ?thesis using False by simp
qed

lemma elapse_retry:
  assumes "inv w" and "timer w = Some (r, c)" and "selectedNote (app w) = Some sel"
    and "\<not> fst (answer 0)"
  shows "store_log (step (Elapse (r + 1500) answer) w) =
     store_log w @
       [UpdateDoc (id_note sel) (currentTitle (app w)) (currentContent (app w)) (snd (answer 0)),
        UpdateDoc (id_note sel) (currentTitle (app w)) (currentContent (app w)) (snd (answer 1))]"
proof -
  note p = pending_timer [OF assms(1,2)]
  note sr = save_result [OF assms(1,3) p(5) p(3)]
  let ?s = "flush (saveCurrentNote c False (snd (answer 0)) w)"
  let ?b = "\<lambda>j. answer (Suc j)"
  have "inv (flush (saveCurrentNote c False (snd (answer 0)) (w\<lparr>timer := None\<rparr>)))"
    using assms(1,2) by (rule fired_save(2))
  then have i': "inv ?s" unfolding fired_save(1) [OF assms(1,2)] .
  have ts: "timer ?s = Some (1500, app ?s)" by (rule sr)
  have as: "app ?s = (app w)\<lparr>isSaving := False\<rparr>" by (rule sr)
  have ls: "store_log ?s = store_log w @
      [UpdateDoc (id_note sel) (currentTitle (app w)) (currentContent (app w)) (snd (answer 0))]"
    using sr(6) [of False "snd (answer 0)"] sr(2) [of "snd (answer 0)"] by simp
  have "step (Elapse (r + 1500) answer) w = elapse_loop (Suc 1500) 1500 answer (Suc 0) ?s"
    using elapse_at_expiry [OF assms(1,2), of "r + 1500" answer] assms(4) by simp
  also have "\<dots> = elapse_loop (Suc 1500) 1500 ?b 0 ?s" by (rule elapse_loop_shift)
  also have "\<dots> = step (Elapse 1500 ?b) ?s"
    unfolding step_Elapse [OF i'] by (simp only: elapse_def)
  finally have e: "step (Elapse (r + 1500) answer) w = step (Elapse 1500 ?b) ?s" .
  have "store_log (step (Elapse 1500 ?b) ?s) =
      store_log ?s @ [UpdateDoc (id_note sel) (currentTitle (app ?s)) (currentContent (app ?s))
                        (snd (?b 0))]"
    using i' ts by (rule elapse_one_save) (simp_all add: as assms(3))
  then show ?thesis unfolding e by (simp add: ls as del: step.simps)
qed

lemma select_after_save:
  assumes "inv w" and "selectedNote (app w) = Some sel" and "isDirty (app w)"
    and "n \<in> set (notes (app w))" and "id_note n \<noteq> id_note sel"
  shows "app (step (Select n ok now) w) =
      (app w)\<lparr>notes := (if ok then save_map (app w) now sel (notes (app w))
                         else notes (app w)),
              selectedNote := Some n, currentTitle := title n, currentContent := content n,
              isSaving := False, isDirty := False\<rparr>"
    and "store_log (step (Select n ok now) w) =
      store_log w @ [UpdateDoc (id_note sel) (currentTitle (app w))
                       (currentContent (app w)) now]"
    and "console (step (Select n ok now) w) =
      (if ok then console w else console w @ [''Error saving note:''])"
    and "timer (step (Select n ok now) w) = None"
proof -
  note f = inv_fields [OF assms(1)]
  have u: "currentUser (app w) \<noteq> None"
    using f(2) assms(2) by (auto simp: user_ok_def)
  have en: "enabled (Select n ok now) w" using u assms(4) by simp
  have ss: "select_saves (app w) n"
    using assms(2,3,5) by (auto simp: select_saves_def)
  let ?s = "saveCurrentNote (app w) ok now w"
  have w': "step (Select n ok now) w = flush (load_note n ?s)"
    using ss by (simp add: handleSelectNote_eq f(1))
  have ids: "ids_ok (app ?s)"
    using f(5) ids_ok_cong [of "app ?s" "app w"] by simp
  have mem: "n \<in> set (notes (app ?s))"
    using assms(4) select_saves_id [OF ss] by (intro save_member) auto
  have cu: "currentUser (app ?s) = currentUser (rendered ?s)"
    by (simp add: rendered_saveCurrentNote)
  have a: "app (flush (load_note n ?s)) =
      (app ?s)\<lparr>selectedNote := Some n, currentTitle := title n,
            currentContent := content n, isDirty := False\<rparr>"
    using cu ids mem by (rule app_flush_load_note)
  have as: "app ?s =
      (app w)\<lparr>notes := (if ok then save_map (app w) now sel (notes (app w))
                         else notes (app w)),
              isDirty := isDirty (app w) \<and> \<not> ok, isSaving := False\<rparr>"
    using assms(2,3)
    by (simp add: app_saveCurrentNote(1) [OF inv_settled [OF assms(1)]] saved_notes_def)
  show af: "app (step (Select n ok now) w) =
      (app w)\<lparr>notes := (if ok then save_map (app w) now sel (notes (app w))
                         else notes (app w)),
              selectedNote := Some n, currentTitle := title n, currentContent := content n,
              isSaving := False, isDirty := False\<rparr>"
    unfolding w' a as by simp
  have "store_log (flush (load_note n ?s)) = store_log ?s"
    using cu by (simp add: store_log_flush_same load_note_def)
  then show "store_log (step (Select n ok now) w) =
      store_log w @ [UpdateDoc (id_note sel) (currentTitle (app w))
                       (currentContent (app w)) now]"
    unfolding w' using assms(2,3) by (simp add: store_log_saveCurrentNote f(1))
  show "console (step (Select n ok now) w) =
      (if ok then console w else console w @ [''Error saving note:''])"
    unfolding w' using assms(2,3) by (simp add: load_note_def console_saveCurrentNote)
  have "inv (step (Select n ok now) w)" using assms(1) en by (rule inv_step)
  moreover have "\<not> isDirty (app (step (Select n ok now) w))" unfolding af by simp
  ultimately show "timer (step (Select n ok now) w) = None"
    by (rule inv_timer_None)
qed

text \<open>
  Claim C3, as amended. Take a dirty draft on a selected note in a reachable
  state and a call of \<open>saveCurrentNote\<close> that reads this draft, with no
  other event arriving while its update is awaited. \<open>isSaving\<close> becomes true
  and one update is sent, carrying the identifier of the selected note, the
  title and the content of the draft and a new last-modified timestamp. On
  success the entries of the list with that identifier are replaced with
  these values, \<open>isDirty\<close> and \<open>isSaving\<close> become false, nothing is logged
  and no timeout is pending. On failure the error is logged, the list is
  unchanged, \<open>isDirty\<close> stays true and \<open>isSaving\<close> becomes false; the
  auto-save effect then sets a new timeout of 1500 ms. What the next render
  shows depends on the caller.

  \<^item> The pending timeout (line 152): when it expires the save runs as above,
    and after a failure a second update with the same draft is sent 1500 ms
    later, with no edit in between.
  \<^item> The selection of another note (line 160): whatever the store answers,
    the other note is loaded and \<open>isDirty\<close> is false, with no timeout
    pending; after a failure the list is unchanged, so the edit is lost.
  \<^item> New Note (line 170): the handler goes on to \<open>addDoc\<close>. When it succeeds,
    the \<open>handleSelectNote\<close> of the same render sends the update a second
    time, the new note is loaded and \<open>isDirty\<close> is false whatever the two
    updates answered. When it fails, \<open>isDirty\<close> is true exactly when the
    update failed.
\<close>

theorem save_success_and_failure:
  assumes "reachable w" and "selectedNote (app w) = Some sel" and "isDirty (app w)"
    and "same_draft c (app w)"
  shows "app (flush (saveCurrentNote_begin c now w)) = (app w)\<lparr>isSaving := True\<rparr> \<and>
         store_log (flush (saveCurrentNote_begin c now w)) =
           store_log w @ [UpdateDoc (id_note sel) (currentTitle (app w))
                            (currentContent (app w)) now] \<and>
         (let w' = flush (saveCurrentNote c True now w)
          in app w' = (app w)\<lparr>notes := save_map c now sel (notes (app w)),
                               isDirty := False, isSaving := False\<rparr> \<and>
             console w' = console w \<and> timer w' = None \<and>
             store_log w' = store_log (flush (saveCurrentNote_begin c now w))) \<and>
         (let w' = flush (saveCurrentNote c False now w)
          in app w' = (app w)\<lparr>isSaving := False\<rparr> \<and>
             console w' = console w @ [''Error saving note:''] \<and>
             timer w' = Some (1500, app w') \<and>
             store_log w' = store_log (flush (saveCurrentNote_begin c now w))) \<and>
         (timer w = Some (r, c) \<longrightarrow>
            step (Elapse r answer) w =
              flush (saveCurrentNote c (fst (answer 0)) (snd (answer 0)) w) \<and>
            (\<not> fst (answer 0) \<longrightarrow>
               store_log (step (Elapse (r + 1500) answer) w) =
                 store_log w @
                   [UpdateDoc (id_note sel) (currentTitle (app w)) (currentContent (app w))
                      (snd (answer 0)),
                    UpdateDoc (id_note sel) (currentTitle (app w)) (currentContent (app w))
                      (snd (answer 1))])) \<and>
         (n \<in> set (notes (app w)) \<and> id_note n \<noteq> id_note sel \<longrightarrow>
            (let w' = step (Select n ok now) w
             in app w' =
                  (app w)\<lparr>notes := (if ok then save_map (app w) now sel (notes (app w))
                                     else notes (app w)),
                          selectedNote := Some n, currentTitle := title n,
                          currentContent := content n,
                          isSaving := False, isDirty := False\<rparr> \<and>
                store_log w' =
                  store_log w @ [UpdateDoc (id_note sel) (currentTitle (app w))
                                   (currentContent (app w)) now] \<and>
                console w' = (if ok then console w else console w @ [''Error saving note:'']) \<and>
                timer w' = None)) \<and>
         (currentUser (app w) = Some uid \<and> docId \<notin> id_note ` set (notes (app w)) \<longrightarrow>
            (let w' = step (AddNew ok1 t1 tc tm (Some docId) ok2 t2) w
             in store_log w' =
                  store_log w @
                    [UpdateDoc (id_note sel) (currentTitle (app w)) (currentContent (app w)) t1,
                     AddDoc ''Untitled Note'' [] tc tm uid,
                     UpdateDoc (id_note sel) (currentTitle (app w)) (currentContent (app w)) t2] \<and>
                notes (app w') =
                  newNoteData tc tm uid docId #
                    saved_notes (app w) ok2 t2 (saved_notes (app w) ok1 t1 (notes (app w))) \<and>
                selectedNote (app w') = Some (newNoteData tc tm uid docId) \<and>
                \<not> isDirty (app w')) \<and>
            (let w' = step (AddNew ok1 t1 tc tm None ok2 t2) w
             in store_log w' =
                  store_log w @
                    [UpdateDoc (id_note sel) (currentTitle (app w)) (currentContent (app w)) t1,
                     AddDoc ''Untitled Note'' [] tc tm uid] \<and>
                notes (app w') = saved_notes (app w) ok1 t1 (notes (app w)) \<and>
                selectedNote (app w') = Some sel \<and>
                isDirty (app w') = (\<not> ok1)))"
proof -
  from assms(1) have i: "inv w" by (rule reachable_inv)
  note sr = save_result [OF i assms(2-4)]
  have a: "app (flush (saveCurrentNote_begin c now w)) = (app w)\<lparr>isSaving := True\<rparr> \<and>
         store_log (flush (saveCurrentNote_begin c now w)) =
           store_log w @ [UpdateDoc (id_note sel) (currentTitle (app w))
                            (currentContent (app w)) now]"
    using sr(1,2) by simp
  have b: "let w' = flush (saveCurrentNote c True now w)
          in app w' = (app w)\<lparr>notes := save_map c now sel (notes (app w)),
                               isDirty := False, isSaving := False\<rparr> \<and>
             console w' = console w \<and> timer w' = None \<and>
             store_log w' = store_log (flush (saveCurrentNote_begin c now w))"
    unfolding Let_def using sr(3,4,5) sr(6) [of True now] by simp
  have c: "let w' = flush (saveCurrentNote c False now w)
          in app w' = (app w)\<lparr>isSaving := False\<rparr> \<and>
             console w' = console w @ [''Error saving note:''] \<and>
             timer w' = Some (1500, app w') \<and>
             store_log w' = store_log (flush (saveCurrentNote_begin c now w))"
    unfolding Let_def using sr(7,8,9) sr(6) [of False now] by simp
  have d: "step (Elapse r answer) w =
              flush (saveCurrentNote c (fst (answer 0)) (snd (answer 0)) w) \<and>
            (\<not> fst (answer 0) \<longrightarrow>
               store_log (step (Elapse (r + 1500) answer) w) =
                 store_log w @
                   [UpdateDoc (id_note sel) (currentTitle (app w)) (currentContent (app w))
                      (snd (answer 0)),
                    UpdateDoc (id_note sel) (currentTitle (app w)) (currentContent (app w))
                      (snd (answer 1))])"
    if t: "timer w = Some (r, c)"
    using elapse_exact [OF i t, of answer] elapse_retry [OF i t assms(2), of answer]
    by blast
  have e: "let w' = step (Select n ok now) w
             in app w' =
                  (app w)\<lparr>notes := (if ok then save_map (app w) now sel (notes (app w))
                                     else notes (app w)),
                          selectedNote := Some n, currentTitle := title n,
                          currentContent := content n,
                          isSaving := False, isDirty := False\<rparr> \<and>
                store_log w' =
                  store_log w @ [UpdateDoc (id_note sel) (currentTitle (app w))
                                   (currentContent (app w)) now] \<and>
                console w' = (if ok then console w else console w @ [''Error saving note:'']) \<and>
                timer w' = None"
    if "n \<in> set (notes (app w))" "id_note n \<noteq> id_note sel"
    unfolding Let_def
    using select_after_save [OF i assms(2,3) that, of ok now] by blast
  have sc: "save_calls (app w) t =
      [UpdateDoc (id_note sel) (currentTitle (app w)) (currentContent (app w)) t]" for t
    using assms(2,3) by (simp add: save_calls_def)
  have f: "(let w' = step (AddNew ok1 t1 tc tm (Some docId) ok2 t2) w
             in store_log w' =
                  store_log w @
                    [UpdateDoc (id_note sel) (currentTitle (app w)) (currentContent (app w)) t1,
                     AddDoc ''Untitled Note'' [] tc tm uid,
                     UpdateDoc (id_note sel) (currentTitle (app w)) (currentContent (app w)) t2] \<and>
                notes (app w') =
                  newNoteData tc tm uid docId #
                    saved_notes (app w) ok2 t2 (saved_notes (app w) ok1 t1 (notes (app w))) \<and>
                selectedNote (app w') = Some (newNoteData tc tm uid docId) \<and>
                \<not> isDirty (app w')) \<and>
            (let w' = step (AddNew ok1 t1 tc tm None ok2 t2) w
             in store_log w' =
                  store_log w @
                    [UpdateDoc (id_note sel) (currentTitle (app w)) (currentContent (app w)) t1,
                     AddDoc ''Untitled Note'' [] tc tm uid] \<and>
                notes (app w') = saved_notes (app w) ok1 t1 (notes (app w)) \<and>
                selectedNote (app w') = Some sel \<and>
                isDirty (app w') = (\<not> ok1))"
    if u: "currentUser (app w) = Some uid" and fresh: "docId \<notin> id_note ` set (notes (app w))"
    unfolding Let_def
    using add_new_result [OF i u fresh, of ok1 t1 tc tm ok2 t2]
      add_new_failed(1,2) [OF i u, of ok1 t1 tc tm ok2 t2] assms(2,3)
    by (simp add: sc del: step.simps)
  from a b c d e f show ?thesis by blast
qed

theorem save_success_and_failure_witness:
  "reachable ex_dirty \<and> selectedNote (app ex_dirty) = Some note_b \<and> isDirty (app ex_dirty) \<and>
   same_draft (app ex_dirty) (app ex_dirty) \<and>
   timer ex_dirty = Some (1500, app ex_dirty) \<and>
   note_a \<in> set (notes (app ex_dirty)) \<and> id_note note_a \<noteq> id_note note_b \<and>
   currentUser (app ex_dirty) = Some ''u1'' \<and>
   ''n3'' \<notin> id_note ` set (notes (app ex_dirty)) \<and>
   isSaving (app (flush (saveCurrentNote_begin (app ex_dirty) 9 ex_dirty))) \<and>
   store_log (flush (saveCurrentNote_begin (app ex_dirty) 9 ex_dirty)) =
     [GetDocs ''u1'', UpdateDoc ''n2'' ''B2'' ''y'' 9] \<and>
   notes (app (flush (saveCurrentNote (app ex_dirty) True 9 ex_dirty))) =
     [note_a, note_b\<lparr>title := ''B2'', lastModified := Some 9\<rparr>] \<and>
   \<not> isDirty (app (flush (saveCurrentNote (app ex_dirty) True 9 ex_dirty))) \<and>
   notes (app (flush (saveCurrentNote (app ex_dirty) False 9 ex_dirty))) = [note_a, note_b] \<and>
   isDirty (app (flush (saveCurrentNote (app ex_dirty) False 9 ex_dirty))) \<and>
   console (flush (saveCurrentNote (app ex_dirty) False 9 ex_dirty)) = [''Error saving note:''] \<and>
   step (Elapse 1500 (\<lambda>i. (False, 9 + i))) ex_dirty =
     flush (saveCurrentNote (app ex_dirty) False 9 ex_dirty) \<and>
   store_log (step (Elapse 3000 (\<lambda>i. (False, 9 + i))) ex_dirty) =
     [GetDocs ''u1'', UpdateDoc ''n2'' ''B2'' ''y'' 9, UpdateDoc ''n2'' ''B2'' ''y'' 10] \<and>
   selectedNote (app (step (Select note_a False 9) ex_dirty)) = Some note_a \<and>
   \<not> isDirty (app (step (Select note_a False 9) ex_dirty)) \<and>
   notes (app (step (Select note_a False 9) ex_dirty)) = [note_a, note_b] \<and>
   timer (step (Select note_a False 9) ex_dirty) = None \<and>
   console (step (Select note_a False 9) ex_dirty) = [''Error saving note:''] \<and>
   store_log (step (AddNew False 10 11 12 (Some ''n3'') True 13) ex_dirty) =
     [GetDocs ''u1'', UpdateDoc ''n2'' ''B2'' ''y'' 10,
      AddDoc ''Untitled Note'' [] 11 12 ''u1'', UpdateDoc ''n2'' ''B2'' ''y'' 13] \<and>
   \<not> isDirty (app (step (AddNew False 10 11 12 (Some ''n3'') True 13) ex_dirty)) \<and>
   isDirty (app (step (AddNew False 10 11 12 None True 13) ex_dirty))"
proof -
  let ?a = "\<lambda>i::nat. (False, 9 + i)"
  have s: "selectedNote (app ex_dirty) = Some note_b" "isDirty (app ex_dirty)"
    "currentTitle (app ex_dirty) = ''B2''" "currentContent (app ex_dirty) = ''y''"
    "store_log ex_dirty = [GetDocs ''u1'']" "notes (app ex_dirty) = [note_a, note_b]"
    "console ex_dirty = []"
    by code_simp+
  have h: "timer ex_dirty = Some (1500, app ex_dirty)"
    "currentUser (app ex_dirty) = Some ''u1''"
    by code_simp+
  have sm: "save_map (app ex_dirty) 9 note_b [note_a, note_b] =
      [note_a, note_b\<lparr>title := ''B2'', lastModified := Some 9\<rparr>]"
    by (simp add: save_map_def updated_note_def s note_a_def note_b_def)
  have t: "id_note note_b = ''n2''" "id_note note_a = ''n1''"
    by (simp_all add: note_a_def note_b_def)
  note th = save_success_and_failure [OF reachable_ex_dirty s(1,2) same_draft_refl,
      where now = 9 and r = 1500 and answer = ?a and n = note_a and ok = False
        and uid = "''u1''" and docId = "''n3''" and ?ok1.0 = False and ?t1.0 = 10 and tc = 11
        and tm = 12 and ?ok2.0 = True and ?t2.0 = 13]
  from th have c1: "isSaving (app (flush (saveCurrentNote_begin (app ex_dirty) 9 ex_dirty)))"
    "store_log (flush (saveCurrentNote_begin (app ex_dirty) 9 ex_dirty)) =
     [GetDocs ''u1'', UpdateDoc ''n2'' ''B2'' ''y'' 9]"
    by (simp_all add: s t del: flush_fields)
  from th have c2: "notes (app (flush (saveCurrentNote (app ex_dirty) True 9 ex_dirty))) =
     [note_a, note_b\<lparr>title := ''B2'', lastModified := Some 9\<rparr>]"
    "\<not> isDirty (app (flush (saveCurrentNote (app ex_dirty) True 9 ex_dirty)))"
    by (simp_all add: Let_def s sm del: flush_fields console_flush)
  from th have c3: "notes (app (flush (saveCurrentNote (app ex_dirty) False 9 ex_dirty))) = [note_a, note_b]"
    "isDirty (app (flush (saveCurrentNote (app ex_dirty) False 9 ex_dirty)))"
    "console (flush (saveCurrentNote (app ex_dirty) False 9 ex_dirty)) = [''Error saving note:'']"
    by (simp_all add: Let_def s del: flush_fields console_flush)
  from th h(1) have c4: "step (Elapse 1500 ?a) ex_dirty =
     flush (saveCurrentNote (app ex_dirty) False 9 ex_dirty)"
    "store_log (step (Elapse 3000 ?a) ex_dirty) =
     [GetDocs ''u1'', UpdateDoc ''n2'' ''B2'' ''y'' 9, UpdateDoc ''n2'' ''B2'' ''y'' 10]"
    by (simp_all add: s t del: step.simps flush_fields console_flush)
  have m: "note_a \<in> set (notes (app ex_dirty))" "id_note note_a \<noteq> id_note note_b"
    "''n3'' \<notin> id_note ` set (notes (app ex_dirty))"
    by (simp_all add: s t)
  from th m(1,2) have c5: "selectedNote (app (step (Select note_a False 9) ex_dirty)) = Some note_a"
   "\<not> isDirty (app (step (Select note_a False 9) ex_dirty))"
   "notes (app (step (Select note_a False 9) ex_dirty)) = [note_a, note_b]"
   "timer (step (Select note_a False 9) ex_dirty) = None"
   "console (step (Select note_a False 9) ex_dirty) = [''Error saving note:'']"
    by (simp_all add: Let_def s del: step.simps flush_fields console_flush)
  from th h(2) m(3) have c6: "store_log (step (AddNew False 10 11 12 (Some ''n3'') True 13) ex_dirty) =
     [GetDocs ''u1'', UpdateDoc ''n2'' ''B2'' ''y'' 10,
      AddDoc ''Untitled Note'' [] 11 12 ''u1'', UpdateDoc ''n2'' ''B2'' ''y'' 13]"
   "\<not> isDirty (app (step (AddNew False 10 11 12 (Some ''n3'') True 13) ex_dirty))"
   "isDirty (app (step (AddNew False 10 11 12 None True 13) ex_dirty))"
    by (simp_all add: Let_def s t del: step.simps flush_fields console_flush)
  from reachable_ex_dirty s(1,2) same_draft_refl [of "app ex_dirty"] h m c1 c2 c3 c4 c5 c6
  show ?thesis by (simp del: step.simps flush_fields console_flush)
qed

text \<open>
  Claim C3 as stated fails in three ways. A failed save of the timeout is
  retried: \<open>isSaving\<close> goes back to false, which is a dependency of the
  auto-save effect (line 156), so the timeout is set again and 1500 ms later
  a second update is sent with no edit in between. A failed save awaited by
  the selection of another note does not leave the draft dirty: the other
  note is loaded, \<open>isDirty\<close> is false and the edit is gone. And a successful
  save does not end clean when the selected note is clicked in the list while
  the update is pending: the click loads the old title from the list, the end
  of the save then puts the new title into the list, and dirty tracking finds
  the draft, now the old text, different from the list. The next timeout
  writes the old title back to the store.
\<close>

theorem save_outcome_counterexample:
  "reachable ex_dirty \<and> store_log ex_dirty = [GetDocs ''u1''] \<and>
   timer ex_dirty = Some (1500, app ex_dirty) \<and>
   store_log (step (Elapse 3000 (\<lambda>i. (False, 9 + i))) ex_dirty) =
     [GetDocs ''u1'', UpdateDoc ''n2'' ''B2'' ''y'' 9, UpdateDoc ''n2'' ''B2'' ''y'' 10] \<and>
   console (step (Elapse 3000 (\<lambda>i. (False, 9 + i))) ex_dirty) =
     [''Error saving note:'', ''Error saving note:''] \<and>
   enabled (Select note_a False 9) ex_dirty \<and>
   console (step (Select note_a False 9) ex_dirty) = [''Error saving note:''] \<and>
   notes (app (step (Select note_a False 9) ex_dirty)) = [note_a, note_b] \<and>
   currentTitle (app (step (Select note_a False 9) ex_dirty)) = ''A'' \<and>
   \<not> isDirty (app (step (Select note_a False 9) ex_dirty)) \<and>
   timer (step (Select note_a False 9) ex_dirty) = None \<and>
   ex_saving = flush (saveCurrentNote_begin (app ex_dirty) 9 (ex_dirty\<lparr>timer := None\<rparr>)) \<and>
   isSaving (app ex_saving) \<and>
   store_log ex_saving = [GetDocs ''u1'', UpdateDoc ''n2'' ''B2'' ''y'' 9] \<and>
   enabled (Select note_b True 0) ex_saving \<and>
   ex_clicked = step (Select note_b True 0) ex_saving \<and>
   currentTitle (app ex_clicked) = ''B'' \<and>
   store_log ex_clicked = store_log ex_saving \<and>
   ex_answered = flush (saveCurrentNote_end (app ex_dirty) True 9 ex_clicked) \<and>
   notes (app ex_answered) = [note_a, note_b\<lparr>title := ''B2'', lastModified := Some 9\<rparr>] \<and>
   currentTitle (app ex_answered) = ''B'' \<and>
   isDirty (app ex_answered) \<and> \<not> isSaving (app ex_answered) \<and>
   store_log (step (Elapse 1500 (\<lambda>i. (True, 20))) ex_answered) =
     [GetDocs ''u1'', UpdateDoc ''n2'' ''B2'' ''y'' 9, UpdateDoc ''n2'' ''B'' ''y'' 20]"
proof -
  have "store_log ex_dirty = [GetDocs ''u1'']" by code_simp
  moreover have "timer ex_dirty = Some (1500, app ex_dirty)" by code_simp
  moreover have "store_log (step (Elapse 3000 (\<lambda>i. (False, 9 + i))) ex_dirty) =
     [GetDocs ''u1'', UpdateDoc ''n2'' ''B2'' ''y'' 9, UpdateDoc ''n2'' ''B2'' ''y'' 10]"
    by code_simp
  moreover have "console (step (Elapse 3000 (\<lambda>i. (False, 9 + i))) ex_dirty) =
     [''Error saving note:'', ''Error saving note:'']" by code_simp
  moreover have "enabled (Select note_a False 9) ex_dirty" by code_simp
  moreover have "console (step (Select note_a False 9) ex_dirty) = [''Error saving note:'']"
    by code_simp
  moreover have "notes (app (step (Select note_a False 9) ex_dirty)) = [note_a, note_b]"
    by code_simp
  moreover have "currentTitle (app (step (Select note_a False 9) ex_dirty)) = ''A''"
    by code_simp
  moreover have "\<not> isDirty (app (step (Select note_a False 9) ex_dirty))" by code_simp
  moreover have "timer (step (Select note_a False 9) ex_dirty) = None" by code_simp
  moreover have "ex_saving =
      flush (saveCurrentNote_begin (app ex_dirty) 9 (ex_dirty\<lparr>timer := None\<rparr>))"
    by (rule ex_saving_def)
  moreover have "isSaving (app ex_saving)" by code_simp
  moreover have "store_log ex_saving = [GetDocs ''u1'', UpdateDoc ''n2'' ''B2'' ''y'' 9]"
    by code_simp
  moreover have "enabled (Select note_b True 0) ex_saving" by code_simp
  moreover have "ex_clicked = step (Select note_b True 0) ex_saving" by (rule ex_clicked_def)
  moreover have "currentTitle (app ex_clicked) = ''B''" by code_simp
  moreover have "store_log ex_clicked = store_log ex_saving" by code_simp
  moreover have "ex_answered = flush (saveCurrentNote_end (app ex_dirty) True 9 ex_clicked)"
    by (rule ex_answered_def)
  moreover have "notes (app ex_answered) =
      [note_a, note_b\<lparr>title := ''B2'', lastModified := Some 9\<rparr>]" by code_simp
  moreover have "currentTitle (app ex_answered) = ''B''" by code_simp
  moreover have "isDirty (app ex_answered)" by code_simp
  moreover have "\<not> isSaving (app ex_answered)" by code_simp
  moreover have "store_log (step (Elapse 1500 (\<lambda>i. (True, 20))) ex_answered) =
     [GetDocs ''u1'', UpdateDoc ''n2'' ''B2'' ''y'' 9, UpdateDoc ''n2'' ''B'' ''y'' 20]"
    by code_simp
  ultimately show ?thesis using reachable_ex_dirty by (simp del: step.simps flush_fields)
qed

end
